theory Spec2Isabelle
  imports Complex_Main "HOL-Library.AList" "HOL-Library.Multiset" "HOL-Library.Sublist"
    "HOL-Library.Char_ord" "HOL-Library.List_Lexorder"
begin

section \<open>Python values\<close>

text \<open>
  Strings are byte strings: a Python \<^verbatim>\<open>str\<close> is represented by its UTF-8 encoding, which
  is also how SQLite stores a TEXT cell. Python integers are unbounded (\<^typ>\<open>int\<close>); SQLite
  INTEGER cells and parameters are taken as mathematical integers too (the 64-bit range of
  the binding, the interpreter's recursion limit and its limit on the digits of an integer
  literal are resource limits outside this model).
\<close>

datatype py_error =
    JSONDecodeError
  | AttributeError
  | TypeError
  | ValueError
  | OverflowError
  | RuntimeError
  | OSError

text \<open>
  A Python \<^verbatim>\<open>dict\<close> keeps its keys in insertion order: an association list with
  distinct keys. \<^verbatim>\<open>d[k] = v\<close> replaces the value in place when the key is present and
  appends the pair otherwise, which is what \<^const>\<open>AList.update\<close> does.
\<close>

type_synonym ('k, 'v) dict = "('k \<times> 'v) list"

definition dict_get :: "('k, 'v) dict \<Rightarrow> 'k \<Rightarrow> 'v \<Rightarrow> 'v" where
  "dict_get d k dflt = (case map_of d k of None \<Rightarrow> dflt | Some v \<Rightarrow> v)"

definition dict_set :: "('k, 'v) dict \<Rightarrow> 'k \<Rightarrow> 'v \<Rightarrow> ('k, 'v) dict" where
  "dict_set d k v = AList.update k v d"

definition dict_values :: "('k, 'v) dict \<Rightarrow> 'v list" where
  "dict_values d = map snd d"

definition dict_keys :: "('k, 'v) dict \<Rightarrow> 'k list" where
  "dict_keys d = map fst d"

text \<open>\<^verbatim>\<open>dict(pairs)\<close>: the pairs are stored one after the other, a later value for a key
  replacing the earlier one.\<close>

definition py_dict :: "('k \<times> 'v) list \<Rightarrow> ('k, 'v) dict" where
  "py_dict kvs = foldl (\<lambda>d (k, v). dict_set d k v) [] kvs"

text \<open>\<^verbatim>\<open>str.lower()\<close> on the ASCII letters; the bytes of a character outside ASCII are
  left alone (no such character lower-cases to an ASCII letter of the allow-lists below,
  which is all the program uses the result for).\<close>

definition lower_char :: "char \<Rightarrow> char" where
  "lower_char c =
     (let n = (of_char c :: nat) in if 65 \<le> n \<and> n \<le> 90 then char_of (n + 32) else c)"

definition str_lower :: "string \<Rightarrow> string" where
  "str_lower s = map lower_char s"

section \<open>The JSON codec of the standard library\<close>

datatype json =
    JNull
  | JBool bool
  | JInt int
  | JFloat string
  | JStr string
  | JArr "json list"
  | JObj "(string \<times> json) list"

text \<open>A number with a fraction or an exponent, and the constants NaN, Infinity and
  -Infinity, decode to a Python float; \<^const>\<open>JFloat\<close> keeps the literal as it was read.\<close>

definition dquote :: char where
  "dquote = CHR 0x22"

definition bslash :: char where
  "bslash = CHR 0x5C"

subsection \<open>Encoding: \<^verbatim>\<open>json.dumps(counts, ensure_ascii=False)\<close>\<close>

definition hex_digit :: "nat \<Rightarrow> char" where
  "hex_digit n = (if n < 10 then char_of (48 + n) else char_of (87 + n))"

definition dec_digit :: "nat \<Rightarrow> char" where
  "dec_digit n = char_of (48 + n)"

text \<open>With \<^verbatim>\<open>ensure_ascii=False\<close> only the quote, the backslash and the control characters
  below 0x20 are escaped; every other character is written as it is.\<close>

definition escape_char :: "char \<Rightarrow> string" where
  "escape_char c =
     (let n = (of_char c :: nat) in
      if c = dquote then [bslash, dquote]
      else if c = bslash then [bslash, bslash]
      else if n = 8 then [bslash, CHR ''b'']
      else if n = 12 then [bslash, CHR ''f'']
      else if n = 10 then [bslash, CHR ''n'']
      else if n = 13 then [bslash, CHR ''r'']
      else if n = 9 then [bslash, CHR ''t'']
      else if n < 32 then
        [bslash, CHR ''u'', CHR ''0'', CHR ''0'', hex_digit (n div 16), hex_digit (n mod 16)]
      else [c])"

definition encode_basestring :: "string \<Rightarrow> string" where
  "encode_basestring s = dquote # concat (map escape_char s) @ [dquote]"

fun nat_digits :: "nat \<Rightarrow> string" where
  "nat_digits n =
     (if n < 10 then [dec_digit n] else nat_digits (n div 10) @ [dec_digit (n mod 10)])"

declare nat_digits.simps [simp del]

definition int_repr :: "int \<Rightarrow> string" where
  "int_repr i = (if i < 0 then CHR ''-'' # nat_digits (nat (- i)) else nat_digits (nat i))"

definition dump_item :: "string \<times> int \<Rightarrow> string" where
  "dump_item kv = encode_basestring (fst kv) @ '': '' @ int_repr (snd kv)"

fun dump_items :: "(string \<times> int) list \<Rightarrow> string" where
  "dump_items [] = []"
| "dump_items [kv] = dump_item kv"
| "dump_items (kv # kvs) = dump_item kv @ '', '' @ dump_items kvs"

definition json_dumps :: "(string, int) dict \<Rightarrow> string" where
  "json_dumps counts = CHR ''{'' # dump_items counts @ ''}''"

subsection \<open>Decoding: \<^verbatim>\<open>json.loads\<close>\<close>

definition is_ws :: "char \<Rightarrow> bool" where
  "is_ws c = (c = CHR 0x20 \<or> c = CHR 0x09 \<or> c = CHR 0x0A \<or> c = CHR 0x0D)"

definition skip_ws :: "string \<Rightarrow> string" where
  "skip_ws s = dropWhile is_ws s"

definition is_digit :: "char \<Rightarrow> bool" where
  "is_digit c = (let n = (of_char c :: nat) in 48 \<le> n \<and> n \<le> 57)"

definition digit_val :: "char \<Rightarrow> nat" where
  "digit_val c = of_char c - 48"

definition digits_val :: "string \<Rightarrow> nat" where
  "digits_val ds = foldl (\<lambda>a c. 10 * a + digit_val c) 0 ds"

definition hex_val :: "char \<Rightarrow> nat option" where
  "hex_val c =
     (let n = (of_char c :: nat) in
      if 48 \<le> n \<and> n \<le> 57 then Some (n - 48)
      else if 97 \<le> n \<and> n \<le> 102 then Some (n - 87)
      else if 65 \<le> n \<and> n \<le> 70 then Some (n - 55)
      else None)"

definition hex4 :: "string \<Rightarrow> (nat \<times> string) option" where
  "hex4 s =
     (case s of
        a # b # c # d # r \<Rightarrow>
          (case (hex_val a, hex_val b, hex_val c, hex_val d) of
             (Some x, Some y, Some z, Some w) \<Rightarrow> Some (((x * 16 + y) * 16 + z) * 16 + w, r)
           | _ \<Rightarrow> None)
      | _ \<Rightarrow> None)"

text \<open>The UTF-8 bytes of a code point (a lone surrogate, which a Python string can hold,
  is written with the three-byte pattern).\<close>

definition utf8 :: "nat \<Rightarrow> string" where
  "utf8 n =
     (if n < 0x80 then [char_of n]
      else if n < 0x800 then [char_of (0xC0 + n div 64), char_of (0x80 + n mod 64)]
      else if n < 0x10000 then
        [char_of (0xE0 + n div 4096), char_of (0x80 + n div 64 mod 64), char_of (0x80 + n mod 64)]
      else
        [char_of (0xF0 + n div 262144), char_of (0x80 + n div 4096 mod 64),
         char_of (0x80 + n div 64 mod 64), char_of (0x80 + n mod 64)])"

text \<open>A \<^verbatim>\<open>\uXXXX\<close> escape, positioned after the \<^verbatim>\<open>u\<close>. A high surrogate followed by an
  escaped low surrogate is one code point; the scanner looks for the pair only when at
  least one more character follows it, and fails when the second escape is not four
  hexadecimal digits.\<close>

definition scan_unicode :: "string \<Rightarrow> (string \<times> string) option" where
  "scan_unicode s =
     (case hex4 s of
        None \<Rightarrow> None
      | Some (c, r) \<Rightarrow>
          (if 0xD800 \<le> c \<and> c \<le> 0xDBFF \<and> 6 < length r \<and> take 2 r = [bslash, CHR ''u''] then
             (case hex4 (drop 2 r) of
                None \<Rightarrow> None
              | Some (c2, r2) \<Rightarrow>
                  if 0xDC00 \<le> c2 \<and> c2 \<le> 0xDFFF
                  then Some (utf8 (0x10000 + (c - 0xD800) * 1024 + (c2 - 0xDC00)), r2)
                  else Some (utf8 c, r))
           else Some (utf8 c, r)))"

definition scan_escape :: "string \<Rightarrow> (string \<times> string) option" where
  "scan_escape s =
     (case s of
        [] \<Rightarrow> None
      | e # r \<Rightarrow>
          if e = CHR ''u'' then scan_unicode r
          else if e = dquote then Some ([dquote], r)
          else if e = bslash then Some ([bslash], r)
          else if e = CHR ''/'' then Some (''/'', r)
          else if e = CHR ''b'' then Some ([CHR 0x08], r)
          else if e = CHR ''f'' then Some ([CHR 0x0C], r)
          else if e = CHR ''n'' then Some ([CHR 0x0A], r)
          else if e = CHR ''r'' then Some ([CHR 0x0D], r)
          else if e = CHR ''t'' then Some ([CHR 0x09], r)
          else None)"

lemma hex4_shorter: "hex4 s = Some (n, r) \<Longrightarrow> length r < length s"
  by (auto simp: hex4_def split: list.splits option.splits)

lemma scan_unicode_shorter: "scan_unicode s = Some (x, r) \<Longrightarrow> length r < length s"
  by (fastforce simp: scan_unicode_def split: option.splits if_splits dest: hex4_shorter)

lemma scan_escape_shorter: "scan_escape s = Some (x, r) \<Longrightarrow> length r < length s"
  by (auto simp: scan_escape_def split: list.splits if_splits dest: scan_unicode_shorter)

text \<open>The body of a string, positioned after the opening quote (strict mode: a raw
  control character ends the decoding with an error).\<close>

function scan_string :: "string \<Rightarrow> (string \<times> string) option" where
  "scan_string s =
     (case s of
        [] \<Rightarrow> None
      | c # cs \<Rightarrow>
          if c = dquote then Some ([], cs)
          else if c = bslash then
            (case scan_escape cs of
               None \<Rightarrow> None
             | Some (x, r) \<Rightarrow>
                 (case scan_string r of None \<Rightarrow> None | Some (y, r') \<Rightarrow> Some (x @ y, r')))
          else if (of_char c :: nat) < 32 then None
          else (case scan_string cs of None \<Rightarrow> None | Some (y, r') \<Rightarrow> Some (c # y, r')))"
  by pat_completeness auto
termination
  by (relation "measure length") (auto dest: scan_escape_shorter)

declare scan_string.simps [simp del]

definition strip_prefix :: "string \<Rightarrow> string \<Rightarrow> string option" where
  "strip_prefix p s = (if take (length p) s = p then Some (drop (length p) s) else None)"

text \<open>A number: \<^verbatim>\<open>(-?(?:0|[1-9][0-9]*))(\.[0-9]+)?([eE][-+]?[0-9]+)?\<close>. Without fraction
  and exponent it is an integer.\<close>

definition scan_int_part :: "string \<Rightarrow> (string \<times> string) option" where
  "scan_int_part s =
     (case s of
        [] \<Rightarrow> None
      | d # r \<Rightarrow>
          if d = CHR ''0'' then Some (''0'', r)
          else if is_digit d then Some (d # takeWhile is_digit r, dropWhile is_digit r)
          else None)"

definition scan_frac :: "string \<Rightarrow> string \<times> string" where
  "scan_frac s =
     (case s of
        [] \<Rightarrow> ([], s)
      | c # r \<Rightarrow>
          if c = CHR ''.'' \<and> takeWhile is_digit r \<noteq> []
          then (c # takeWhile is_digit r, dropWhile is_digit r)
          else ([], s))"

definition scan_exp :: "string \<Rightarrow> string \<times> string" where
  "scan_exp s =
     (case s of
        [] \<Rightarrow> ([], s)
      | c # r \<Rightarrow>
          if c = CHR ''e'' \<or> c = CHR ''E'' then
            (let sgn = (case r of [] \<Rightarrow> [] | g # _ \<Rightarrow> if g = CHR ''+'' \<or> g = CHR ''-'' then [g] else []);
                 r' = drop (length sgn) r
             in if takeWhile is_digit r' \<noteq> []
                then (c # sgn @ takeWhile is_digit r', dropWhile is_digit r')
                else ([], s))
          else ([], s))"

definition scan_number :: "string \<Rightarrow> (json \<times> string) option" where
  "scan_number s =
     (let sgn = (case s of [] \<Rightarrow> [] | c # _ \<Rightarrow> if c = CHR ''-'' then [c] else []) in
      case scan_int_part (drop (length sgn) s) of
        None \<Rightarrow> None
      | Some (ds, r) \<Rightarrow>
          (let (frac, r1) = scan_frac r; (ex, r2) = scan_exp r1 in
           if frac = [] \<and> ex = []
           then Some (JInt (if sgn = [] then int (digits_val ds) else - int (digits_val ds)), r2)
           else Some (JFloat (sgn @ ds @ frac @ ex), r2)))"

definition scan_atom :: "string \<Rightarrow> (json \<times> string) option" where
  "scan_atom s =
     (case strip_prefix ''null'' s of Some r \<Rightarrow> Some (JNull, r) | None \<Rightarrow>
      case strip_prefix ''true'' s of Some r \<Rightarrow> Some (JBool True, r) | None \<Rightarrow>
      case strip_prefix ''false'' s of Some r \<Rightarrow> Some (JBool False, r) | None \<Rightarrow>
      case strip_prefix ''NaN'' s of Some r \<Rightarrow> Some (JFloat ''NaN'', r) | None \<Rightarrow>
      case strip_prefix ''Infinity'' s of Some r \<Rightarrow> Some (JFloat ''Infinity'', r) | None \<Rightarrow>
      case strip_prefix ''-Infinity'' s of Some r \<Rightarrow> Some (JFloat ''-Infinity'', r) | None \<Rightarrow>
      scan_number s)"

lemma skip_ws_length: "length (skip_ws s) \<le> length s"
  by (simp add: skip_ws_def length_dropWhile_le)

lemma scan_string_shorter: "scan_string s = Some (x, r) \<Longrightarrow> length r < length s"
proof (induction s arbitrary: x r rule: scan_string.induct)
  case (1 s)
  show ?case
  proof (cases s)
    case Nil
    with "1.prems" show ?thesis by (simp add: scan_string.simps)
  next
    case (Cons c cs)
    with "1.prems" "1.IH" show ?thesis
      by (subst (asm) scan_string.simps)
         (fastforce split: if_splits option.splits dest: scan_escape_shorter)
  qed
qed

text \<open>
  The recursive descent of the decoder. \<open>parse_array\<close> is positioned at the first character
  of an element, \<open>parse_object\<close> at the quote that must open a key. The two tests on lengths
  guard the recursion; \<open>parse_array_guard\<close> and \<open>parse_object_guard\<close> below show that
  they hold whenever they are reached.
\<close>

function parse_value :: "string \<Rightarrow> (json \<times> string) option"
  and parse_array :: "string \<Rightarrow> (json list \<times> string) option"
  and parse_object :: "string \<Rightarrow> ((string \<times> json) list \<times> string) option"
where
  "parse_value s =
     (case s of
        [] \<Rightarrow> None
      | c # cs \<Rightarrow>
          if c = dquote then
            (case scan_string cs of None \<Rightarrow> None | Some (x, r) \<Rightarrow> Some (JStr x, r))
          else if c = CHR ''{'' then
            (case skip_ws cs of
               [] \<Rightarrow> None
             | d # ds \<Rightarrow>
                 if d = CHR ''}'' then Some (JObj [], ds)
                 else (case parse_object (d # ds) of
                         None \<Rightarrow> None
                       | Some (m, r) \<Rightarrow> Some (JObj m, r)))
          else if c = CHR ''['' then
            (case skip_ws cs of
               [] \<Rightarrow> None
             | d # ds \<Rightarrow>
                 if d = CHR '']'' then Some (JArr [], ds)
                 else (case parse_array (d # ds) of
                         None \<Rightarrow> None
                       | Some (vs, r) \<Rightarrow> Some (JArr vs, r)))
          else scan_atom s)"
| "parse_array s =
     (case parse_value s of
        None \<Rightarrow> None
      | Some (v, r) \<Rightarrow>
          (case skip_ws r of
             [] \<Rightarrow> None
           | d # ds \<Rightarrow>
               if d = CHR '']'' then Some ([v], ds)
               else if d = CHR '','' \<and> length ds < length s then
                 (case parse_array (skip_ws ds) of
                    None \<Rightarrow> None
                  | Some (vs, r') \<Rightarrow> Some (v # vs, r'))
               else None))"
| "parse_object s =
     (case s of
        [] \<Rightarrow> None
      | c # cs \<Rightarrow>
          if c \<noteq> dquote then None
          else
            (case scan_string cs of
               None \<Rightarrow> None
             | Some (k, r) \<Rightarrow>
                 (case skip_ws r of
                    [] \<Rightarrow> None
                  | d # ds \<Rightarrow>
                      if d \<noteq> CHR '':'' then None
                      else
                        (case parse_value (skip_ws ds) of
                           None \<Rightarrow> None
                         | Some (v, r2) \<Rightarrow>
                             (case skip_ws r2 of
                                [] \<Rightarrow> None
                              | e # es \<Rightarrow>
                                  if e = CHR ''}'' then Some ([(k, v)], es)
                                  else if e = CHR '','' \<and> length es < length s then
                                    (case parse_object (skip_ws es) of
                                       None \<Rightarrow> None
                                     | Some (m, r3) \<Rightarrow> Some ((k, v) # m, r3))
                                  else None)))))"
  by pat_completeness auto
termination
proof (relation "measure (\<lambda>x. case x of
          Inl s \<Rightarrow> 2 * length s
        | Inr (Inl s) \<Rightarrow> 2 * length s + 1
        | Inr (Inr s) \<Rightarrow> 2 * length s + 1)", goal_cases)
  case 1
  show ?case by simp
next
  case (2 s c cs d ds)
  have "length (d # ds) \<le> length cs" using 2 skip_ws_length [of cs] by simp
  with 2 show ?case by simp
next
  case (3 s c cs d ds)
  have "length (d # ds) \<le> length cs" using 3 skip_ws_length [of cs] by simp
  with 3 show ?case by simp
next
  case (4 s)
  show ?case by simp
next
  case (5 s x v r d ds)
  then show ?case using skip_ws_length [of ds] by simp
next
  case (6 s c cs x k r d ds)
  have "length r < length cs" using 6 scan_string_shorter [of cs k r] by auto
  moreover have "length (d # ds) \<le> length r" using 6 skip_ws_length [of r] by simp
  ultimately show ?case using 6 skip_ws_length [of ds] by simp
next
  case (7 s c cs x k r d ds y v r2 e es)
  then show ?case using skip_ws_length [of es] by simp
qed

declare parse_value.simps [simp del] parse_array.simps [simp del] parse_object.simps [simp del]

text \<open>\<^verbatim>\<open>json.loads(s)\<close>: white space, one value, white space, the end of the text.
  \<open>None\<close> is \<^verbatim>\<open>JSONDecodeError\<close>.\<close>

definition json_loads :: "string \<Rightarrow> json option" where
  "json_loads s =
     (case parse_value (skip_ws s) of
        None \<Rightarrow> None
      | Some (v, r) \<Rightarrow> if skip_ws r = [] then Some v else None)"

section \<open>The request store (db.py)\<close>

text \<open>One row of the table \<^verbatim>\<open>requests\<close>. The column \<^verbatim>\<open>id\<close> is \<open>row_id\<close> here.\<close>

record row =
  row_id :: int
  filename :: string
  output_path :: string
  counts_json :: string
  total_count :: int
  model_name :: string
  created_at :: string
  processing_ms :: int

text \<open>The database: the rows of the table in the order of their insertion, and the largest
  identifier the table has ever held (\<^verbatim>\<open>AUTOINCREMENT\<close> keeps it, so that no identifier is
  used twice).\<close>

record store =
  rows :: "row list"
  seq :: int

text \<open>\<^verbatim>\<open>id INTEGER PRIMARY KEY AUTOINCREMENT\<close>: the identifiers of the rows are distinct and
  none is above the recorded maximum.\<close>

definition store_ok :: "store \<Rightarrow> bool" where
  "store_ok st = (distinct (map row_id (rows st)) \<and> list_all (\<lambda>r. row_id r \<le> seq st) (rows st))"

text \<open>\<^verbatim>\<open>CREATE TABLE IF NOT EXISTS\<close>: a database without the table gets an empty one, an
  existing table is left as it is.\<close>

definition init_db :: "store option \<Rightarrow> store" where
  "init_db db = (case db of None \<Rightarrow> \<lparr>rows = [], seq = 0\<rparr> | Some st \<Rightarrow> st)"

definition next_id :: "store \<Rightarrow> int" where
  "next_id st = fold max (map row_id (rows st)) (seq st) + 1"

definition insert_request ::
  "string \<Rightarrow> string \<Rightarrow> (string, int) dict \<Rightarrow> int \<Rightarrow> string \<Rightarrow> string \<Rightarrow> int \<Rightarrow> store \<Rightarrow> int \<times> store"
where
  "insert_request fname out_path counts n_total mname created ms st =
     (let counts_text = json_dumps counts;
          lastrowid = next_id st;
          r = \<lparr>row_id = lastrowid, filename = fname, output_path = out_path,
               counts_json = counts_text, total_count = n_total, model_name = mname,
               created_at = created, processing_ms = ms\<rparr>
      in (lastrowid, \<lparr>rows = rows st @ [r], seq = lastrowid\<rparr>))"

text \<open>\<^verbatim>\<open>ORDER BY id DESC\<close> and \<^verbatim>\<open>LIMIT ?\<close>. SQLite reads a negative limit as no limit.\<close>

definition order_by_id_desc :: "row list \<Rightarrow> row list" where
  "order_by_id_desc rs = rev (sort_key row_id rs)"

definition sql_limit :: "int \<Rightarrow> 'a list \<Rightarrow> 'a list" where
  "sql_limit n xs = (if n < 0 then xs else take (nat n) xs)"

definition fetch_recent :: "int \<Rightarrow> store \<Rightarrow> row list" where
  "fetch_recent limit st = sql_limit limit (order_by_id_desc (rows st))"

definition fetch_all :: "store \<Rightarrow> row list" where
  "fetch_all st = order_by_id_desc (rows st)"

text \<open>The aggregates of \<^verbatim>\<open>get_summary\<close>. \<^verbatim>\<open>SUM\<close> and \<^verbatim>\<open>AVG\<close> of no row are NULL
  (\<open>None\<close>), which \<^verbatim>\<open>COALESCE(_, 0)\<close> replaces by zero. \<^verbatim>\<open>AVG\<close> is the quotient of the
  sum by the count; the rounding of the quotient to a double is not modelled.\<close>

definition sql_count :: "'a list \<Rightarrow> int" where
  "sql_count xs = int (length xs)"

definition sql_sum :: "int list \<Rightarrow> int option" where
  "sql_sum xs = (if xs = [] then None else Some (sum_list xs))"

definition sql_avg :: "int list \<Rightarrow> real option" where
  "sql_avg xs = (if xs = [] then None else Some (real_of_int (sum_list xs) / real (length xs)))"

definition coalesce :: "'a option \<Rightarrow> 'a \<Rightarrow> 'a" where
  "coalesce v d = (case v of None \<Rightarrow> d | Some x \<Rightarrow> x)"

record summary =
  total_requests :: int
  total_fruits :: int
  avg_per_request :: real

definition get_summary :: "store \<Rightarrow> summary" where
  "get_summary st =
     \<lparr>total_requests = sql_count (rows st),
      total_fruits = coalesce (sql_sum (map total_count (rows st))) 0,
      avg_per_request = coalesce (sql_avg (map total_count (rows st))) 0\<rparr>"

text \<open>\<^verbatim>\<open>int(value)\<close> on a decoded JSON value. What \<^verbatim>\<open>int\<close> makes of a float and of a string
  is the interpreter's business (IEEE doubles, the Unicode tables of digits and spaces):
  the two conversions are parameters of the model.\<close>

record builtins =
  int_of_float :: "string \<Rightarrow> py_error + int"
  int_of_str :: "string \<Rightarrow> py_error + int"

definition py_int :: "builtins \<Rightarrow> json \<Rightarrow> py_error + int" where
  "py_int lib v =
     (case v of
        JNull \<Rightarrow> Inl TypeError
      | JBool b \<Rightarrow> Inr (if b then 1 else 0)
      | JInt i \<Rightarrow> Inr i
      | JFloat l \<Rightarrow> int_of_float lib l
      | JStr s \<Rightarrow> int_of_str lib s
      | JArr _ \<Rightarrow> Inl TypeError
      | JObj _ \<Rightarrow> Inl TypeError)"

text \<open>\<^verbatim>\<open>counts.items()\<close>: only a decoded object is a \<^verbatim>\<open>dict\<close>; a list, a string, a number,
  a boolean and \<^verbatim>\<open>None\<close> have no attribute \<^verbatim>\<open>items\<close>.\<close>

definition counts_items :: "json \<Rightarrow> py_error + (string \<times> json) list" where
  "counts_items v = (case v of JObj m \<Rightarrow> Inr (py_dict m) | _ \<Rightarrow> Inl AttributeError)"

text \<open>The inner loop of \<^verbatim>\<open>get_counts_by_class\<close>:
  \<^verbatim>\<open>totals[key] = totals.get(key, 0) + int(value)\<close>.\<close>

fun add_items ::
  "builtins \<Rightarrow> (string, int) dict \<Rightarrow> (string \<times> json) list \<Rightarrow> py_error + (string, int) dict"
where
  "add_items lib totals [] = Inr totals"
| "add_items lib totals ((key, v) # rest) =
     (case py_int lib v of
        Inl e \<Rightarrow> Inl e
      | Inr n \<Rightarrow> add_items lib (dict_set totals key (dict_get totals key 0 + n)) rest)"

text \<open>The outer loop: only \<^verbatim>\<open>json.JSONDecodeError\<close> is caught.\<close>

definition row_counts :: "row \<Rightarrow> json" where
  "row_counts r = (case json_loads (counts_json r) of None \<Rightarrow> JObj [] | Some v \<Rightarrow> v)"

fun add_rows ::
  "builtins \<Rightarrow> (string, int) dict \<Rightarrow> row list \<Rightarrow> py_error + (string, int) dict"
where
  "add_rows lib totals [] = Inr totals"
| "add_rows lib totals (r # rs) =
     (case counts_items (row_counts r) of
        Inl e \<Rightarrow> Inl e
      | Inr items \<Rightarrow>
          (case add_items lib totals items of
             Inl e \<Rightarrow> Inl e
           | Inr totals' \<Rightarrow> add_rows lib totals' rs))"

definition get_counts_by_class :: "builtins \<Rightarrow> store \<Rightarrow> py_error + (string, int) dict" where
  "get_counts_by_class lib st = add_rows lib [] (fetch_all st)"

text \<open>The calls of the store's interface, to speak about sequences of them: a query
  returns its result and leaves the database as it found it.\<close>

datatype db_call =
    Summary
  | TotalsByClass
  | RecentRows int
  | AllRows
  | Insert string string "(string, int) dict" int string string int

datatype db_reply =
    SummaryReply summary
  | TotalsReply "py_error + (string, int) dict"
  | RowsReply "row list"
  | InsertReply int

fun is_insert :: "db_call \<Rightarrow> bool" where
  "is_insert (Insert _ _ _ _ _ _ _) = True"
| "is_insert _ = False"

fun db_exec :: "builtins \<Rightarrow> db_call \<Rightarrow> store \<Rightarrow> db_reply \<times> store" where
  "db_exec lib Summary st = (SummaryReply (get_summary st), st)"
| "db_exec lib TotalsByClass st = (TotalsReply (get_counts_by_class lib st), st)"
| "db_exec lib (RecentRows n) st = (RowsReply (fetch_recent n st), st)"
| "db_exec lib AllRows st = (RowsReply (fetch_all st), st)"
| "db_exec lib (Insert f out c t m cr ms) st =
     (case insert_request f out c t m cr ms st of (i, st') \<Rightarrow> (InsertReply i, st'))"

fun db_run :: "builtins \<Rightarrow> db_call list \<Rightarrow> store \<Rightarrow> db_reply list \<times> store" where
  "db_run lib [] st = ([], st)"
| "db_run lib (c # cs) st =
     (case db_exec lib c st of
        (r, st') \<Rightarrow> (case db_run lib cs st' of (rs, st'') \<Rightarrow> (r # rs, st'')))"

section \<open>The detection adapter (model.py)\<close>

definition FRUIT_CLASSES :: "string set" where
  "FRUIT_CLASSES = {''apple'', ''banana'', ''orange''}"

definition MODEL_NAME :: string where
  "MODEL_NAME = ''yolov8n.pt''"

definition IMG_SIZE :: int where
  "IMG_SIZE = 760"

definition CONF_THRESHOLD :: real where
  "CONF_THRESHOLD = 15 / 100"

definition IOU_THRESHOLD :: real where
  "IOU_THRESHOLD = 1 / 2"

text \<open>One call of the detector: the image, the three tuning arguments and the optional
  restriction \<^verbatim>\<open>classes=\<close> (\<open>None\<close> when the argument is not passed).\<close>

record invocation =
  source :: string
  imgsz :: int
  conf :: real
  iou :: real
  classes :: "int list option"

text \<open>What the program reads of \<^verbatim>\<open>results[0]\<close>: its table of class names
  (\<^verbatim>\<open>result.names or {}\<close>), the class identifiers of the boxes (\<open>None\<close> when
  \<^verbatim>\<open>result.boxes\<close> or \<^verbatim>\<open>result.boxes.cls\<close> is \<^verbatim>\<open>None\<close>) and the plotted image.\<close>

record det_result =
  res_names :: "(int, string) dict"
  res_cls :: "int list option"
  plotted :: string

text \<open>The detector is an external collaborator: its table of names (\<^verbatim>\<open>model.names or {}\<close>)
  and what it answers to a call, an exception or a result.\<close>

record detector =
  det_names :: "(int, string) dict"
  infer :: "invocation \<Rightarrow> py_error + det_result"

text \<open>The module's global caches \<^verbatim>\<open>_model\<close>, \<^verbatim>\<open>_supported\<close> and \<^verbatim>\<open>_fruit_class_ids\<close>, and
  the calls the detector has received so far (the record of an effect, not a variable of
  the module).\<close>

record model_state =
  loaded_model :: "detector option"
  supported :: "string list option"
  fruit_class_ids :: "int list option"
  detector_calls :: "invocation list"

text \<open>\<^verbatim>\<open>load_model\<close>: \<open>yolo\<close> is what the constructor \<^verbatim>\<open>YOLO(MODEL_NAME)\<close> does when it is
  called, raise or return a detector.\<close>

definition load_model ::
  "(py_error + detector) \<Rightarrow> model_state \<Rightarrow> (py_error + detector) \<times> model_state"
where
  "load_model yolo ms =
     (case loaded_model ms of
        Some m \<Rightarrow> (Inr m, ms)
      | None \<Rightarrow>
          (case yolo of
             Inl e \<Rightarrow> (Inl e, ms)
           | Inr m \<Rightarrow> (Inr m, ms\<lparr>loaded_model := Some m\<rparr>)))"

definition get_supported_fruits ::
  "(py_error + detector) \<Rightarrow> bool \<Rightarrow> model_state \<Rightarrow> (py_error + string list) \<times> model_state"
where
  "get_supported_fruits yolo allow_load ms =
     (case supported ms of
        Some fruits \<Rightarrow> (Inr fruits, ms)
      | None \<Rightarrow>
          if \<not> allow_load \<and> loaded_model ms = None then (Inr [], ms)
          else
            (case load_model yolo ms of
               (Inl e, ms') \<Rightarrow> (Inl e, ms')
             | (Inr m, ms') \<Rightarrow>
                 (let fruits = sorted_list_of_set
                        (set (filter (\<lambda>n. n \<in> FRUIT_CLASSES) (map str_lower (dict_values (det_names m)))))
                  in (Inr fruits, ms'\<lparr>supported := Some fruits\<rparr>))))"

definition get_fruit_class_ids ::
  "(py_error + detector) \<Rightarrow> model_state \<Rightarrow> (py_error + int list) \<times> model_state"
where
  "get_fruit_class_ids yolo ms =
     (case fruit_class_ids ms of
        Some ids \<Rightarrow> (Inr ids, ms)
      | None \<Rightarrow>
          (case load_model yolo ms of
             (Inl e, ms') \<Rightarrow> (Inl e, ms')
           | (Inr m, ms') \<Rightarrow>
               (let ids = map fst (filter (\<lambda>(cls_id, name). str_lower name \<in> FRUIT_CLASSES) (det_names m))
                in (Inr ids, ms'\<lparr>fruit_class_ids := Some ids\<rparr>))))"

text \<open>The counting loop of \<^verbatim>\<open>run_detection\<close>: a detection whose lower-cased name is not in
  \<open>FRUIT_CLASSES\<close> is passed over.\<close>

fun count_classes ::
  "(int, string) dict \<Rightarrow> (string, int) dict \<Rightarrow> int list \<Rightarrow> (string, int) dict"
where
  "count_classes names counts [] = counts"
| "count_classes names counts (cls_id # rest) =
     (let name = dict_get names cls_id ''unknown'';
          key = str_lower name
      in count_classes names
           (if key \<in> FRUIT_CLASSES then dict_set counts key (dict_get counts key 0 + 1) else counts)
           rest)"

record detection =
  det_counts :: "(string, int) dict"
  det_total :: int
  det_image :: string
  det_ms :: int

text \<open>\<^verbatim>\<open>run_detection\<close>. \<open>clock_ms\<close> is the time the two readings of the clock around the
  call of the detector give.\<close>

definition run_detection ::
  "(py_error + detector) \<Rightarrow> int \<Rightarrow> string \<Rightarrow> model_state \<Rightarrow> (py_error + detection) \<times> model_state"
where
  "run_detection yolo clock_ms image_path ms =
     (case load_model yolo ms of
        (Inl e, ms1) \<Rightarrow> (Inl e, ms1)
      | (Inr m, ms1) \<Rightarrow>
          (case get_fruit_class_ids yolo ms1 of
             (Inl e, ms2) \<Rightarrow> (Inl e, ms2)
           | (Inr fruit_ids, ms2) \<Rightarrow>
               (let call = \<lparr>source = image_path, imgsz = IMG_SIZE, conf = CONF_THRESHOLD,
                            iou = IOU_THRESHOLD,
                            classes = (if fruit_ids \<noteq> [] then Some fruit_ids else None)\<rparr>;
                    ms3 = ms2\<lparr>detector_calls := detector_calls ms2 @ [call]\<rparr>
                in case infer m call of
                     Inl e \<Rightarrow> (Inl e, ms3)
                   | Inr result \<Rightarrow>
                       (let counts = (case res_cls result of
                                        None \<Rightarrow> []
                                      | Some cls \<Rightarrow> count_classes (res_names result) [] cls);
                            n_total = sum_list (dict_values counts)
                        in (Inr \<lparr>det_counts = counts, det_total = n_total,
                                  det_image = plotted result, det_ms = clock_ms\<rparr>, ms3)))))"

section \<open>The request pipeline (main.py)\<close>

definition MAX_FILE_MB :: int where
  "MAX_FILE_MB = 20"

definition ALLOWED_EXTENSIONS :: "string set" where
  "ALLOWED_EXTENSIONS = {''.jpg'', ''.jpeg'', ''.png''}"

text \<open>\<^verbatim>\<open>Path(filename).suffix\<close> for a POSIX path: the name is the last component that is
  neither empty nor a single dot; the suffix starts at the last dot of the name when that
  dot is neither its first nor its last character.\<close>

fun split_on :: "char \<Rightarrow> string \<Rightarrow> string list" where
  "split_on sep [] = [[]]"
| "split_on sep (c # cs) =
     (if c = sep then [] # split_on sep cs
      else (case split_on sep cs of [] \<Rightarrow> [[c]] | p # ps \<Rightarrow> (c # p) # ps))"

definition path_name :: "string \<Rightarrow> string" where
  "path_name p =
     (case filter (\<lambda>part. part \<noteq> [] \<and> part \<noteq> ''.'') (split_on CHR ''/'' p) of
        [] \<Rightarrow> []
      | part # parts \<Rightarrow> last (part # parts))"

definition path_suffix :: "string \<Rightarrow> string" where
  "path_suffix p =
     (let name = path_name p;
          after = rev (takeWhile (\<lambda>c. c \<noteq> CHR ''.'') (rev name))
      in if CHR ''.'' \<in> set name \<and> after \<noteq> [] \<and> length after + 1 < length name
         then CHR ''.'' # after else [])"

definition join :: "string \<Rightarrow> string list \<Rightarrow> string" where
  "join sep xs = (case xs of [] \<Rightarrow> [] | y # ys \<Rightarrow> y @ concat (map (\<lambda>x. sep @ x) ys))"

text \<open>The four messages with which the handler rejects an upload.\<close>

datatype rejection = NoFileSelected | UnsupportedType | TooLarge | NotAnImage

record result_info =
  request_id :: int
  original_name :: string
  output_url :: string
  res_counts :: "(string, int) dict"
  res_total :: int
  res_processing_ms :: int
  res_created_at :: string

record page_context =
  ctx_summary :: summary
  ctx_counts_by_class :: "(string, int) dict"
  ctx_recent :: "row list"
  ctx_result :: "result_info option"
  ctx_error :: "rejection option"
  ctx_supported_fruits :: string
  ctx_max_file_mb :: int
  ctx_allowed_ext :: string

text \<open>What a request meets outside the program: the constructor of the detector, the
  structural check of the image library on the uploaded bytes, whether the annotated
  image can be saved, the identifier \<^verbatim>\<open>uuid4().hex\<close>, the clock, the measured time, and
  the interpreter's conversions.\<close>

record env =
  yolo :: "py_error + detector"
  image_verify :: "string \<Rightarrow> bool"
  save_ok :: bool
  file_id :: string
  now :: string
  clock_ms :: int
  interp :: builtins

record upload =
  upload_filename :: "string option"
  contents :: string

text \<open>The state of the application: the database, the files of the two directories
  \<^verbatim>\<open>data/uploads\<close> and \<^verbatim>\<open>data/outputs\<close>, and the caches of the detection adapter.\<close>

record app_state =
  db :: store
  uploads :: "string \<rightharpoonup> string"
  outputs :: "string \<rightharpoonup> string"
  mstate :: model_state

datatype response = Page page_context | Raised py_error

definition build_context ::
  "env \<Rightarrow> result_info option \<Rightarrow> rejection option \<Rightarrow> bool \<Rightarrow> app_state
     \<Rightarrow> (py_error + page_context) \<times> app_state"
where
  "build_context e res err load_model_info st =
     (let summ = get_summary (db st) in
      case get_counts_by_class (interp e) (db st) of
        Inl x \<Rightarrow> (Inl x, st)
      | Inr counts_by_class \<Rightarrow>
          (let recent = fetch_recent 10 (db st) in
           case get_supported_fruits (yolo e) load_model_info (mstate st) of
             (Inl x, ms') \<Rightarrow> (Inl x, st\<lparr>mstate := ms'\<rparr>)
           | (Inr fruits, ms') \<Rightarrow>
               (Inr \<lparr>ctx_summary = summ, ctx_counts_by_class = counts_by_class,
                     ctx_recent = recent, ctx_result = res, ctx_error = err,
                     ctx_supported_fruits = join '', '' fruits,
                     ctx_max_file_mb = MAX_FILE_MB,
                     ctx_allowed_ext = join '', '' (sorted_list_of_set ALLOWED_EXTENSIONS)\<rparr>,
                st\<lparr>mstate := ms'\<rparr>)))"

definition render :: "(py_error + page_context) \<times> app_state \<Rightarrow> response \<times> app_state" where
  "render r = (case r of (Inl x, st) \<Rightarrow> (Raised x, st) | (Inr c, st) \<Rightarrow> (Page c, st))"

text \<open>
  The handler \<^verbatim>\<open>process_image\<close> in two steps. \<open>pipeline\<close> is its body up to the point where
  a branch has its result or its error message: validation, staging of the upload,
  detection, the annotated image, the insertion. Every branch of the handler then ends
  in the same way, with \<^verbatim>\<open>_build_context\<close> and the template: that is \<open>respond\<close>. An
  exception that nothing catches leaves the handler as it is (\<open>Failed\<close>).
\<close>

datatype outcome = Rejected rejection | Completed result_info | Failed py_error

definition pipeline :: "env \<Rightarrow> upload \<Rightarrow> app_state \<Rightarrow> outcome \<times> app_state" where
  "pipeline e up st =
     (case upload_filename up of
        None \<Rightarrow> (Rejected NoFileSelected, st)
      | Some fname \<Rightarrow>
          (let ext = str_lower (path_suffix fname) in
           if ext \<notin> ALLOWED_EXTENSIONS then (Rejected UnsupportedType, st)
           else if int (length (contents up)) > MAX_FILE_MB * 1024 * 1024 then (Rejected TooLarge, st)
           else
             (let upload_path = file_id e @ ext;
                  st1 = st\<lparr>uploads := (uploads st)(upload_path \<mapsto> contents up)\<rparr>
              in if \<not> image_verify e (contents up) then
                   (Rejected NotAnImage, st1\<lparr>uploads := (uploads st1)(upload_path := None)\<rparr>)
                 else
                   (case run_detection (yolo e) (clock_ms e) upload_path (mstate st1) of
                      (Inl x, ms') \<Rightarrow> (Failed x, st1\<lparr>mstate := ms'\<rparr>)
                    | (Inr d, ms') \<Rightarrow>
                        (let st2 = st1\<lparr>mstate := ms'\<rparr>;
                             output_filename = file_id e @ ''_result.jpg''
                         in if \<not> save_ok e then (Failed OSError, st2)
                            else
                              (let st3 = st2\<lparr>outputs := (outputs st2)(output_filename \<mapsto> det_image d)\<rparr>;
                                   created = now e;
                                   (rid, db') = insert_request fname output_filename (det_counts d)
                                                  (det_total d) MODEL_NAME created (det_ms d) (db st3);
                                   st4 = st3\<lparr>db := db'\<rparr>;
                                   res = \<lparr>request_id = rid, original_name = fname,
                                          output_url = ''/outputs/'' @ output_filename,
                                          res_counts = det_counts d, res_total = det_total d,
                                          res_processing_ms = det_ms d, res_created_at = created\<rparr>
                               in (Completed res, st4)))))))"

definition respond :: "env \<Rightarrow> outcome \<times> app_state \<Rightarrow> response \<times> app_state" where
  "respond e r =
     (case r of
        (Rejected msg, st) \<Rightarrow> render (build_context e None (Some msg) False st)
      | (Completed res, st) \<Rightarrow> render (build_context e (Some res) None True st)
      | (Failed x, st) \<Rightarrow> (Raised x, st))"

definition process_image :: "env \<Rightarrow> upload \<Rightarrow> app_state \<Rightarrow> response \<times> app_state" where
  "process_image e up st = respond e (pipeline e up st)"

section \<open>Notions for the statements\<close>

text \<open>The JSON value of a dictionary of counts.\<close>

definition counts_value :: "(string, int) dict \<Rightarrow> json" where
  "counts_value counts = JObj (map (\<lambda>kv. (fst kv, JInt (snd kv))) counts)"

text \<open>The lower-cased class names of the raw detections of a result, as the counting loop
  reads them.\<close>

definition raw_names :: "det_result \<Rightarrow> string list" where
  "raw_names r =
     (case res_cls r of
        None \<Rightarrow> []
      | Some cls \<Rightarrow> map (\<lambda>cls_id. str_lower (dict_get (res_names r) cls_id ''unknown'')) cls)"

text \<open>What one row adds to the total of a class: the converted values its decoded object
  holds for the class, and nothing when the text of the row does not decode.\<close>

definition converts :: "builtins \<Rightarrow> json \<Rightarrow> bool" where
  "converts bi v = (case py_int bi v of Inl _ \<Rightarrow> False | Inr _ \<Rightarrow> True)"

definition int_or_zero :: "builtins \<Rightarrow> json \<Rightarrow> int" where
  "int_or_zero bi v = (case py_int bi v of Inl _ \<Rightarrow> 0 | Inr n \<Rightarrow> n)"

definition class_count :: "builtins \<Rightarrow> string \<Rightarrow> (string \<times> json) list \<Rightarrow> int" where
  "class_count bi k items = (\<Sum>kv\<leftarrow>items. if fst kv = k then int_or_zero bi (snd kv) else 0)"

definition row_class_count :: "builtins \<Rightarrow> string \<Rightarrow> row \<Rightarrow> int" where
  "row_class_count bi k r =
     (case counts_items (row_counts r) of Inl _ \<Rightarrow> 0 | Inr items \<Rightarrow> class_count bi k items)"

definition readable_row :: "builtins \<Rightarrow> row \<Rightarrow> bool" where
  "readable_row bi r =
     (case counts_items (row_counts r) of
        Inl _ \<Rightarrow> False
      | Inr items \<Rightarrow> list_all (\<lambda>kv. converts bi (snd kv)) items)"

text \<open>The fields of a request, to speak about a sequence of insertions.\<close>

record new_request =
  nr_filename :: string
  nr_output_path :: string
  nr_counts :: "(string, int) dict"
  nr_total :: int
  nr_model :: string
  nr_created :: string
  nr_ms :: int

definition insert_all :: "new_request list \<Rightarrow> store \<Rightarrow> store" where
  "insert_all reqs st =
     foldl (\<lambda>s q. snd (insert_request (nr_filename q) (nr_output_path q) (nr_counts q) (nr_total q)
                           (nr_model q) (nr_created q) (nr_ms q) s)) st reqs"

text \<open>What follows a value inside an encoded object: a comma or the closing brace.\<close>

definition value_end :: "string \<Rightarrow> bool" where
  "value_end rest = (case rest of [] \<Rightarrow> False | c # _ \<Rightarrow> c = CHR '','' \<or> c = CHR ''}'')"

section \<open>Examples\<close>

text \<open>The scenario of the specification: three requests with the counts
  \<^verbatim>\<open>{apple: 2}\<close>, \<^verbatim>\<open>{banana: 1, apple: 1}\<close> and \<^verbatim>\<open>{}\<close>, inserted into a new database.\<close>

definition scenario_store :: store where
  "scenario_store =
     snd (insert_request ''c.png'' ''c_result.jpg'' [] 0 ''yolov8n.pt'' ''2024-05-01 10:00:09'' 38
       (snd (insert_request ''b.jpg'' ''b_result.jpg'' [(''banana'', 1), (''apple'', 1)] 2
               ''yolov8n.pt'' ''2024-05-01 10:00:05'' 41
          (snd (insert_request ''a.jpg'' ''a_result.jpg'' [(''apple'', 2)] 2
                  ''yolov8n.pt'' ''2024-05-01 10:00:01'' 45 (init_db None))))))"

text \<open>An interpreter for the examples: the two conversions are never reached there.\<close>

definition sample_builtins :: builtins where
  "sample_builtins = \<lparr>int_of_float = (\<lambda>_. Inl ValueError), int_of_str = (\<lambda>_. Inl ValueError)\<rparr>"

text \<open>Two detectors for the examples. The first knows the three fruits among its classes
  and answers with the boxes of its restriction; the second knows none of them under the
  names of its own table, while the results it returns name a banana.\<close>

definition sample_names :: "(int, string) dict" where
  "sample_names = [(0, ''person''), (46, ''banana''), (47, ''Apple''), (49, ''orange'')]"

definition sample_detector :: detector where
  "sample_detector =
     \<lparr>det_names = sample_names,
      infer = (\<lambda>c. Inr \<lparr>res_names = sample_names,
                         res_cls = Some (case classes c of
                                           None \<Rightarrow> [47, 0, 46, 47]
                                         | Some ids \<Rightarrow> filter (\<lambda>i. i \<in> set ids) [47, 0, 46, 47]),
                         plotted = ''annotated''\<rparr>)\<rparr>"

definition bare_detector :: detector where
  "bare_detector =
     \<lparr>det_names = [(0, ''person'')],
      infer = (\<lambda>c. Inr \<lparr>res_names = [(0, ''person''), (1, ''Banana'')],
                         res_cls = Some [1, 0, 1],
                         plotted = ''annotated''\<rparr>)\<rparr>"

definition failing_detector :: detector where
  "failing_detector = \<lparr>det_names = sample_names, infer = (\<lambda>c. Inl RuntimeError)\<rparr>"

definition fresh_model_state :: model_state where
  "fresh_model_state =
     \<lparr>loaded_model = None, supported = None, fruit_class_ids = None, detector_calls = []\<rparr>"

text \<open>The scenario's store with a fourth row, in two variants: the text of its counts is
  cut off (not JSON at all), or it is the JSON text of a list instead of an object.\<close>

definition truncated_store :: store where
  "truncated_store =
     \<lparr>rows = rows scenario_store @
        [\<lparr>row_id = 4, filename = ''d.jpg'', output_path = ''d_result.jpg'',
          counts_json = CHR ''{'' # dquote # ''apple'', total_count = 1,
          model_name = ''yolov8n.pt'', created_at = ''2024-05-01 10:00:12'', processing_ms = 40\<rparr>],
      seq = 4\<rparr>"

definition corrupt_store :: store where
  "corrupt_store =
     \<lparr>rows = rows scenario_store @
        [\<lparr>row_id = 4, filename = ''d.jpg'', output_path = ''d_result.jpg'',
          counts_json = ''[]'', total_count = 1,
          model_name = ''yolov8n.pt'', created_at = ''2024-05-01 10:00:12'', processing_ms = 40\<rparr>],
      seq = 4\<rparr>"

text \<open>An environment, a state and some uploads for the examples. The image library of the
  example accepts what starts with the two bytes of a JPEG file.\<close>

definition sample_env :: env where
  "sample_env =
     \<lparr>yolo = Inr sample_detector,
      image_verify = (\<lambda>bytes. take 2 bytes = [CHR 0xFF, CHR 0xD8]),
      save_ok = True, file_id = ''0f3a'', now = ''2024-05-01 10:01:00'', clock_ms = 40,
      interp = sample_builtins\<rparr>"

definition failing_env :: env where
  "failing_env = sample_env\<lparr>yolo := Inr failing_detector\<rparr>"

definition bare_env :: env where
  "bare_env = sample_env\<lparr>yolo := Inr bare_detector\<rparr>"

definition sample_state :: app_state where
  "sample_state =
     \<lparr>db = scenario_store, uploads = Map.empty, outputs = Map.empty, mstate = fresh_model_state\<rparr>"

definition good_upload :: upload where
  "good_upload =
     \<lparr>upload_filename = Some ''Market.JPG'', contents = [CHR 0xFF, CHR 0xD8, CHR 0xFF, CHR 0xE0]\<rparr>"

definition gif_upload :: upload where
  "gif_upload =
     \<lparr>upload_filename = Some ''holiday.GIF'', contents = [CHR 0xFF, CHR 0xD8, CHR 0xFF, CHR 0xE0]\<rparr>"

definition big_upload :: upload where
  "big_upload = \<lparr>upload_filename = Some ''big.png'', contents = replicate 20971521 (CHR 0x00)\<rparr>"

definition text_upload :: upload where
  "text_upload = \<lparr>upload_filename = Some ''notes.png'', contents = ''hello''\<rparr>"

section \<open>Properties of dictionaries\<close>

lemma dict_get_set:
  "dict_get (dict_set d k v) k' dflt = (if k' = k then v else dict_get d k' dflt)"
  by (simp add: dict_get_def dict_set_def update_conv')

lemma dict_keys_set: "set (dict_keys (dict_set d k v)) = insert k (set (dict_keys d))"
  by (simp add: dict_keys_def dict_set_def dom_update)

lemma dict_keys_set_distinct:
  "distinct (dict_keys d) \<Longrightarrow> distinct (dict_keys (dict_set d k v))"
  by (simp add: dict_keys_def dict_set_def distinct_update)

lemma sum_values_update:
  "sum_list (map snd (AList.update k v d)) = sum_list (map snd d) - dict_get d k 0 + (v :: int)"
  by (induction d) (auto simp: dict_get_def)

lemma dict_values_set_sum:
  "sum_list (dict_values (dict_set d k (dict_get d k 0 + n))) = sum_list (dict_values d) + (n :: int)"
  by (simp add: dict_values_def dict_set_def sum_values_update)

lemma dict_get_empty: "dict_get [] k dflt = dflt"
  by (simp add: dict_get_def)

lemma dict_values_empty: "dict_values [] = []"
  by (simp add: dict_values_def)

section \<open>The decoder consumes its input\<close>

lemma strip_prefix_shorter:
  assumes "strip_prefix p s = Some r" and "p \<noteq> []"
  shows "length r < length s"
proof -
  from assms(1) have t: "take (length p) s = p" and r: "r = drop (length p) s"
    by (auto simp: strip_prefix_def split: if_splits)
  from t have le: "length p \<le> length s"
    by (metis length_take min.cobounded1)
  from assms(2) have pos: "0 < length p" by simp
  from le pos have "length s - length p < length s" by arith
  then show ?thesis by (simp add: r)
qed

lemma scan_int_part_shorter: "scan_int_part s = Some (ds, r) \<Longrightarrow> length r < length s"
  by (auto simp: scan_int_part_def split: list.splits if_splits
      intro: le_imp_less_Suc length_dropWhile_le)

lemma scan_frac_shorter: "scan_frac s = (f, r) \<Longrightarrow> length r \<le> length s"
  by (auto simp: scan_frac_def split: list.splits if_splits
      intro: le_SucI length_dropWhile_le)

lemma scan_exp_shorter: "scan_exp s = (x, r) \<Longrightarrow> length r \<le> length s"
proof (cases s)
  case Nil
  then show "scan_exp s = (x, r) \<Longrightarrow> length r \<le> length s"
    by (simp add: scan_exp_def)
next
  case (Cons c cs)
  assume a: "scan_exp s = (x, r)"
  show "length r \<le> length s"
  proof (cases "r = s")
    case True
    then show ?thesis by simp
  next
    case False
    with a Cons obtain k where "r = dropWhile is_digit (drop k cs)"
      by (auto simp: scan_exp_def Let_def split: if_splits)
    moreover have "length (dropWhile is_digit (drop k cs)) \<le> length (drop k cs)"
      by (rule length_dropWhile_le)
    ultimately show ?thesis using Cons by simp
  qed
qed

lemma scan_number_shorter:
  assumes "scan_number s = Some (v, r)"
  shows "length r < length s"
proof -
  let ?sg = "case s of [] \<Rightarrow> [] | c # _ \<Rightarrow> if c = CHR ''-'' then [c] else []"
  from assms obtain ds r0 where i: "scan_int_part (drop (length ?sg) s) = Some (ds, r0)"
    by (auto simp: scan_number_def Let_def split: option.splits)
  obtain f r1 where f: "scan_frac r0 = (f, r1)" by (cases "scan_frac r0")
  obtain x r2 where x: "scan_exp r1 = (x, r2)" by (cases "scan_exp r1")
  from assms i f x have "r = r2"
    by (auto simp: scan_number_def Let_def split: if_splits)
  moreover have "length r0 < length (drop (length ?sg) s)"
    using i by (rule scan_int_part_shorter)
  moreover have "length r1 \<le> length r0" using f by (rule scan_frac_shorter)
  moreover have "length r2 \<le> length r1" using x by (rule scan_exp_shorter)
  ultimately show ?thesis by simp
qed

lemma scan_atom_shorter:
  assumes "scan_atom s = Some (v, r)"
  shows "length r < length s"
  using assms
  by (auto simp: scan_atom_def split: option.splits
      dest: scan_number_shorter strip_prefix_shorter)

lemma skip_ws_Cons_shorter: "skip_ws r = d # ds \<Longrightarrow> length ds < length r"
  using skip_ws_length [of r] by simp

lemma parse_shorter:
  "(\<forall>v r. parse_value s = Some (v, r) \<longrightarrow> length r < length s)"
  "(\<forall>vs r. parse_array s1 = Some (vs, r) \<longrightarrow> length r < length s1)"
  "(\<forall>m r. parse_object s2 = Some (m, r) \<longrightarrow> length r < length s2)"
proof (induction s and s1 and s2 rule: parse_value_parse_array_parse_object.induct)
  case (1 s)
  show ?case
  proof (intro allI impI)
    fix v r
    assume a: "parse_value s = Some (v, r)"
    show "length r < length s"
    proof (cases s)
      case Nil
      with a show ?thesis by (simp add: parse_value.simps)
    next
      case (Cons c cs)
      consider (str) "c = dquote" | (obj) "c \<noteq> dquote" "c = CHR ''{''"
        | (arr) "c \<noteq> dquote" "c \<noteq> CHR ''{''" "c = CHR ''[''"
        | (atom) "c \<noteq> dquote" "c \<noteq> CHR ''{''" "c \<noteq> CHR ''[''"
        by blast
      then show ?thesis
      proof cases
        case str
        with a Cons obtain x where "scan_string cs = Some (x, r)"
          by (subst (asm) parse_value.simps) (auto split: option.splits)
        from scan_string_shorter [OF this] Cons show ?thesis by simp
      next
        case obj
        from a Cons obj obtain d ds where sk: "skip_ws cs = d # ds"
          by (subst (asm) parse_value.simps) (auto split: list.splits)
        have le: "length (d # ds) \<le> length cs"
          using skip_ws_length [of cs] sk by simp
        show ?thesis
        proof (cases "d = CHR ''}''")
          case True
          with a Cons obj sk have "r = ds"
            by (subst (asm) parse_value.simps) auto
          with le Cons show ?thesis by simp
        next
          case False
          with a Cons obj sk obtain m where "parse_object (d # ds) = Some (m, r)"
            by (subst (asm) parse_value.simps) (auto split: option.splits)
          with "1.IH"(1) [OF Cons obj(1) obj(2) sk False] have "length r < length (d # ds)"
            by blast
          with le Cons show ?thesis by simp
        qed
      next
        case arr
        from a Cons arr obtain d ds where sk: "skip_ws cs = d # ds"
          by (subst (asm) parse_value.simps) (auto split: list.splits)
        have le: "length (d # ds) \<le> length cs"
          using skip_ws_length [of cs] sk by simp
        show ?thesis
        proof (cases "d = CHR '']''")
          case True
          with a Cons arr sk have "r = ds"
            by (subst (asm) parse_value.simps) auto
          with le Cons show ?thesis by simp
        next
          case False
          with a Cons arr sk obtain vs where "parse_array (d # ds) = Some (vs, r)"
            by (subst (asm) parse_value.simps) (auto split: option.splits)
          with "1.IH"(2) [OF Cons arr(1) arr(2) arr(3) sk False] have "length r < length (d # ds)"
            by blast
          with le Cons show ?thesis by simp
        qed
      next
        case atom
        with a Cons have "scan_atom s = Some (v, r)"
          by (subst (asm) parse_value.simps) auto
        then show ?thesis by (rule scan_atom_shorter)
      qed
    qed
  qed
next
  case (2 s)
  show ?case
  proof (intro allI impI)
    fix vs r
    assume a: "parse_array s = Some (vs, r)"
    then obtain v r1 where v: "parse_value s = Some (v, r1)"
      by (subst (asm) parse_array.simps) (auto split: option.splits)
    with "2.IH"(1) have r1: "length r1 < length s" by blast
    from a v obtain d ds where sk: "skip_ws r1 = d # ds"
      by (subst (asm) parse_array.simps) (auto split: list.splits)
    have ds: "length ds < length r1" using sk by (rule skip_ws_Cons_shorter)
    show "length r < length s"
    proof (cases "d = CHR '']''")
      case True
      with a v sk have "r = ds"
        by (subst (asm) parse_array.simps) auto
      with ds r1 show ?thesis by simp
    next
      case False
      with a v sk have g: "d = CHR '','' \<and> length ds < length s"
        by (subst (asm) parse_array.simps) (auto split: if_splits)
      with a v sk False obtain vs' where "parse_array (skip_ws ds) = Some (vs', r)"
        by (subst (asm) parse_array.simps) (auto split: option.splits)
      with "2.IH"(2) [OF v refl sk False g] have "length r < length (skip_ws ds)"
        by blast
      with skip_ws_length [of ds] ds r1 show ?thesis by simp
    qed
  qed
next
  case (3 s)
  show ?case
  proof (intro allI impI)
    fix m r
    assume a: "parse_object s = Some (m, r)"
    then obtain c cs where s: "s = c # cs" and c: "\<not> c \<noteq> dquote"
      by (subst (asm) parse_object.simps) (auto split: list.splits if_splits)
    from a s c obtain k r1 where k: "scan_string cs = Some (k, r1)"
      by (subst (asm) parse_object.simps) (auto split: option.splits)
    from a s c k obtain d ds where sk: "skip_ws r1 = d # ds" and d: "\<not> d \<noteq> CHR '':''"
      by (subst (asm) parse_object.simps) (auto split: list.splits if_splits)
    from a s c k sk d obtain v r2 where v: "parse_value (skip_ws ds) = Some (v, r2)"
      by (subst (asm) parse_object.simps) (auto split: option.splits)
    from a s c k sk d v obtain e es where sk2: "skip_ws r2 = e # es"
      by (subst (asm) parse_object.simps) (auto split: list.splits)
    have l1: "length r1 < length cs" using k by (rule scan_string_shorter)
    have l2: "length ds < length r1" using sk by (rule skip_ws_Cons_shorter)
    have l3: "length r2 < length (skip_ws ds)"
      using "3.IH"(1) [OF s c k refl sk d] v by blast
    have l4: "length es < length r2" using sk2 by (rule skip_ws_Cons_shorter)
    have es: "length es < length s"
      using l1 l2 l3 l4 skip_ws_length [of ds] s by simp
    show "length r < length s"
    proof (cases "e = CHR ''}''")
      case True
      with a s c k sk d v sk2 have "r = es"
        by (subst (asm) parse_object.simps) auto
      with es show ?thesis by simp
    next
      case False
      with a s c k sk d v sk2 have g: "e = CHR '','' \<and> length es < length s"
        by (subst (asm) parse_object.simps) (auto split: if_splits)
      with a s c k sk d v sk2 False obtain m' where "parse_object (skip_ws es) = Some (m', r)"
        by (subst (asm) parse_object.simps) (auto split: option.splits)
      with "3.IH"(2) [OF s c k refl sk d v refl sk2 False g]
      have "length r < length (skip_ws es)" by blast
      with skip_ws_length [of es] es show ?thesis by simp
    qed
  qed
qed


text \<open>The two tests on lengths in \<open>parse_array\<close> and \<open>parse_object\<close> hold whenever they are
  reached: the model rejects no text on their account.\<close>

lemma parse_array_guard:
  assumes "parse_value s = Some (v, r)" and "skip_ws r = d # ds"
  shows "length ds < length s"
proof -
  have "length r < length s" using parse_shorter(1) [of s] assms(1) by blast
  moreover have "length ds < length r" using assms(2) by (rule skip_ws_Cons_shorter)
  ultimately show ?thesis by simp
qed

lemma parse_object_guard:
  assumes "scan_string cs = Some (k, r)" and "skip_ws r = d # ds"
    and "parse_value (skip_ws ds) = Some (v, r2)" and "skip_ws r2 = e # es"
  shows "length es < length (c # cs)"
proof -
  have "length r < length cs" using assms(1) by (rule scan_string_shorter)
  moreover have "length ds < length r" using assms(2) by (rule skip_ws_Cons_shorter)
  moreover have "length r2 < length (skip_ws ds)"
    using parse_shorter(1) [of "skip_ws ds"] assms(3) by blast
  moreover have "length es < length r2" using assms(4) by (rule skip_ws_Cons_shorter)
  ultimately show ?thesis using skip_ws_length [of ds] by simp
qed

section \<open>The codec reads back what it writes\<close>

lemma char_eq_iff: "c = d \<longleftrightarrow> (of_char c :: nat) = of_char d"
  by auto

lemma scan_string_Cons:
  "scan_string (c # cs) =
     (if c = dquote then Some ([], cs)
      else if c = bslash then
        (case scan_escape cs of
           None \<Rightarrow> None
         | Some (x, r) \<Rightarrow>
             (case scan_string r of None \<Rightarrow> None | Some (y, r') \<Rightarrow> Some (x @ y, r')))
      else if (of_char c :: nat) < 32 then None
      else (case scan_string cs of None \<Rightarrow> None | Some (y, r') \<Rightarrow> Some (c # y, r')))"
  by (subst scan_string.simps) simp

lemma hex_val_hex_digit: "d < 16 \<Longrightarrow> hex_val (hex_digit d) = Some d"
  by (auto simp: hex_val_def hex_digit_def Let_def)

lemma hex4_control:
  assumes "n < 32"
  shows "hex4 (CHR ''0'' # CHR ''0'' # hex_digit (n div 16) # hex_digit (n mod 16) # rest) = Some (n, rest)"
proof -
  have "n div 16 < 16" using assms by simp
  then have a: "hex_val (hex_digit (n div 16)) = Some (n div 16)" by (rule hex_val_hex_digit)
  have b: "hex_val (hex_digit (n mod 16)) = Some (n mod 16)" by (simp add: hex_val_hex_digit)
  have z: "hex_val CHR ''0'' = Some 0" by (simp add: hex_val_def)
  show ?thesis by (simp add: hex4_def a b z)
qed

lemma scan_unicode_control:
  assumes "n < 32"
  shows "scan_unicode (CHR ''0'' # CHR ''0'' # hex_digit (n div 16) # hex_digit (n mod 16) # rest) =
           Some ([char_of n], rest)"
  using assms by (simp add: scan_unicode_def hex4_control utf8_def)

lemma scan_string_escape_char:
  "scan_string (escape_char c @ rest) =
     (case scan_string rest of None \<Rightarrow> None | Some (y, r) \<Rightarrow> Some (c # y, r))"
proof -
  let ?n = "of_char c :: nat"
  consider (q) "c = dquote" | (b) "c = bslash"
    | (named) "c \<noteq> dquote" "c \<noteq> bslash" "?n = 8 \<or> ?n = 12 \<or> ?n = 10 \<or> ?n = 13 \<or> ?n = 9"
    | (ctl) "c \<noteq> dquote" "c \<noteq> bslash" "?n \<noteq> 8" "?n \<noteq> 12" "?n \<noteq> 10" "?n \<noteq> 13" "?n \<noteq> 9" "?n < 32"
    | (plain) "c \<noteq> dquote" "c \<noteq> bslash" "\<not> ?n < 32"
    by linarith
  then show ?thesis
  proof cases
    case q
    then show ?thesis
      by (simp add: escape_char_def scan_string_Cons scan_escape_def dquote_def bslash_def
          split: option.splits)
  next
    case b
    then show ?thesis
      by (simp add: escape_char_def scan_string_Cons scan_escape_def dquote_def bslash_def
          split: option.splits)
  next
    case named
    then show ?thesis
      by (auto simp: escape_char_def scan_string_Cons scan_escape_def dquote_def bslash_def
          char_eq_iff split: option.splits)
  next
    case ctl
    have "char_of ?n = c" by simp
    with ctl show ?thesis
      by (simp add: escape_char_def Let_def scan_string_Cons scan_escape_def scan_unicode_control
               dquote_def bslash_def split: option.splits)
  next
    case plain
    then show ?thesis
      by (simp add: escape_char_def scan_string_Cons Let_def split: option.splits)
  qed
qed

lemma scan_string_encoded:
  "scan_string (concat (map escape_char s) @ dquote # rest) = Some (s, rest)"
  by (induction s) (simp_all add: scan_string_Cons scan_string_escape_char)


lemma is_digit_dec_digit: "d < 10 \<Longrightarrow> is_digit (dec_digit d)"
  by (simp add: is_digit_def dec_digit_def)

lemma digit_val_dec_digit: "d < 10 \<Longrightarrow> digit_val (dec_digit d) = d"
  by (simp add: digit_val_def dec_digit_def)

lemma dec_digit_zero: "d < 10 \<Longrightarrow> dec_digit d = CHR ''0'' \<longleftrightarrow> d = 0"
  by (simp add: dec_digit_def char_eq_iff)

lemma nat_digits_all: "list_all is_digit (nat_digits n)"
proof (induction n rule: nat_digits.induct)
  case (1 n)
  then show ?case
    by (subst nat_digits.simps) (simp add: is_digit_dec_digit)
qed

lemma nat_digits_val: "digits_val (nat_digits n) = n"
proof (induction n rule: nat_digits.induct)
  case (1 n)
  show ?case
  proof (cases "n < 10")
    case True
    then show ?thesis
      by (subst nat_digits.simps) (simp add: digits_val_def digit_val_dec_digit)
  next
    case False
    then have "digits_val (nat_digits (n div 10)) = n div 10"
      using 1 by simp
    with False show ?thesis
      by (subst nat_digits.simps) (simp add: digits_val_def digit_val_dec_digit)
  qed
qed

lemma nat_digits_head:
  "\<exists>d ds. nat_digits n = d # ds \<and> is_digit d \<and> (d = CHR ''0'' \<longrightarrow> n = 0 \<and> ds = [])"
proof (induction n rule: nat_digits.induct)
  case (1 n)
  show ?case
  proof (cases "n < 10")
    case True
    then show ?thesis
      by (subst nat_digits.simps) (simp add: is_digit_dec_digit dec_digit_zero)
  next
    case False
    then obtain d ds where h: "nat_digits (n div 10) = d # ds" "is_digit d"
      "d = CHR ''0'' \<longrightarrow> n div 10 = 0 \<and> ds = []"
      using 1 by blast
    from False have "n div 10 \<noteq> 0" by simp
    with h False show ?thesis
      by (subst nat_digits.simps) simp
  qed
qed

lemma value_end_facts:
  assumes "value_end rest"
  shows "takeWhile is_digit rest = []" and "dropWhile is_digit rest = rest"
    and "scan_frac rest = ([], rest)" and "scan_exp rest = ([], rest)"
  using assms
  by (auto simp: value_end_def is_digit_def scan_frac_def scan_exp_def split: list.splits)

lemma scan_int_part_digits:
  assumes "value_end rest"
  shows "scan_int_part (nat_digits n @ rest) = Some (nat_digits n, rest)"
proof -
  obtain d ds where h: "nat_digits n = d # ds" "is_digit d" "d = CHR ''0'' \<longrightarrow> n = 0 \<and> ds = []"
    using nat_digits_head by blast
  have all: "list_all is_digit ds"
    using nat_digits_all [of n] h(1) by simp
  then have tw: "takeWhile is_digit (ds @ rest) = ds" and dw: "dropWhile is_digit (ds @ rest) = rest"
    using value_end_facts(1,2) [OF assms]
    by (simp_all add: list_all_iff takeWhile_append2 dropWhile_append2)
  show ?thesis
    using h tw dw by (auto simp: scan_int_part_def)
qed

lemma scan_number_digits:
  assumes "value_end rest" and "sg = [] \<or> sg = ''-''"
    and "(case sg @ nat_digits n @ rest of [] \<Rightarrow> [] | c # _ \<Rightarrow> if c = CHR ''-'' then [c] else []) = sg"
  shows "scan_number (sg @ nat_digits n @ rest) =
           Some (JInt (if sg = [] then int n else - int n), rest)"
proof -
  have d: "drop (length sg) (sg @ nat_digits n @ rest) = nat_digits n @ rest"
    by simp
  show ?thesis
    unfolding scan_number_def assms(3) Let_def d scan_int_part_digits [OF assms(1)]
    by (simp add: value_end_facts(3,4) [OF assms(1)] nat_digits_val)
qed

lemma scan_number_int_repr:
  assumes "value_end rest"
  shows "scan_number (int_repr v @ rest) = Some (JInt v, rest)"
proof (cases "v < 0")
  case True
  have "scan_number (''-'' @ nat_digits (nat (- v)) @ rest) =
          Some (JInt (if ''-'' = [] then int (nat (- v)) else - int (nat (- v))), rest)"
    by (rule scan_number_digits [OF assms]) simp_all
  with True show ?thesis
    by (simp add: int_repr_def)
next
  case False
  obtain d ds where h: "nat_digits (nat v) = d # ds" "is_digit d"
    using nat_digits_head by blast
  then have "d \<noteq> CHR ''-''"
    by (auto simp: is_digit_def)
  with h have "scan_number ([] @ nat_digits (nat v) @ rest) =
          Some (JInt (if ([]::string) = [] then int (nat v) else - int (nat v)), rest)"
    by (intro scan_number_digits [OF assms]) simp_all
  with False show ?thesis
    by (simp add: int_repr_def)
qed

lemma int_repr_head:
  "\<exists>c cs. int_repr v = c # cs \<and> (is_digit c \<or> c = CHR ''-'' \<and> (\<exists>d ds. cs = d # ds \<and> is_digit d))"
proof -
  obtain d ds where "nat_digits (nat \<bar>v\<bar>) = d # ds" "is_digit d"
    using nat_digits_head by blast
  then show ?thesis
    by (cases "v < 0") (auto simp: int_repr_def abs_if)
qed

lemma strip_prefix_first: "c \<noteq> p \<Longrightarrow> strip_prefix (p # ps) (c # cs) = None"
  by (simp add: strip_prefix_def)

lemma strip_prefix_second: "d \<noteq> q \<Longrightarrow> strip_prefix (p # q # ps) (c # d # ds) = None"
  by (simp add: strip_prefix_def)

lemma is_digit_not_letter:
  assumes "is_digit c"
  shows "c \<noteq> CHR ''n''" "c \<noteq> CHR ''t''" "c \<noteq> CHR ''f''" "c \<noteq> CHR ''N''" "c \<noteq> CHR ''I''"
    "c \<noteq> CHR ''-''"
  using assms by (auto simp: is_digit_def)

lemma scan_atom_number:
  assumes "strip_prefix ''null'' s = None" "strip_prefix ''true'' s = None"
    "strip_prefix ''false'' s = None" "strip_prefix ''NaN'' s = None"
    "strip_prefix ''Infinity'' s = None" "strip_prefix ''-Infinity'' s = None"
  shows "scan_atom s = scan_number s"
  by (simp only: scan_atom_def assms option.case)

lemma scan_atom_int_repr:
  assumes "value_end rest"
  shows "scan_atom (int_repr v @ rest) = Some (JInt v, rest)"
proof -
  obtain c cs where h: "int_repr v = c # cs"
    "is_digit c \<or> c = CHR ''-'' \<and> (\<exists>d ds. cs = d # ds \<and> is_digit d)"
    using int_repr_head [of v] by (elim exE conjE) auto
  have c: "c \<noteq> CHR ''n''" "c \<noteq> CHR ''t''" "c \<noteq> CHR ''f''" "c \<noteq> CHR ''N''" "c \<noteq> CHR ''I''"
    using h(2) is_digit_not_letter(1-5) [of c] by auto
  have p1: "strip_prefix ''null'' (c # cs @ rest) = None"
    using c(1) by (rule strip_prefix_first)
  have p2: "strip_prefix ''true'' (c # cs @ rest) = None"
    using c(2) by (rule strip_prefix_first)
  have p3: "strip_prefix ''false'' (c # cs @ rest) = None"
    using c(3) by (rule strip_prefix_first)
  have p4: "strip_prefix ''NaN'' (c # cs @ rest) = None"
    using c(4) by (rule strip_prefix_first)
  have p5: "strip_prefix ''Infinity'' (c # cs @ rest) = None"
    using c(5) by (rule strip_prefix_first)
  have p6: "strip_prefix ''-Infinity'' (c # cs @ rest) = None"
    using h(2)
  proof
    assume "is_digit c"
    then have "c \<noteq> CHR ''-''" by (rule is_digit_not_letter(6))
    then show ?thesis by (rule strip_prefix_first)
  next
    assume "c = CHR ''-'' \<and> (\<exists>d ds. cs = d # ds \<and> is_digit d)"
    then obtain d ds where m: "cs = d # ds" "is_digit d"
      by blast
    have "d \<noteq> CHR ''I''" using m(2) by (rule is_digit_not_letter(5))
    then have "strip_prefix ''-Infinity'' (c # d # (ds @ rest)) = None"
      by (rule strip_prefix_second)
    then show ?thesis by (simp only: m(1) append_Cons)
  qed
  have "scan_atom (c # cs @ rest) = scan_number (c # cs @ rest)"
    using p1 p2 p3 p4 p5 p6 by (rule scan_atom_number)
  then show ?thesis
    using scan_number_int_repr [OF assms, of v] h(1) by simp
qed


lemma skip_ws_Cons: "\<not> is_ws c \<Longrightarrow> skip_ws (c # cs) = c # cs"
  by (simp add: skip_ws_def)

lemma is_digit_not_ws: "is_digit c \<Longrightarrow> \<not> is_ws c"
  by (auto simp: is_digit_def is_ws_def)

lemma punct_not_ws:
  "\<not> is_ws dquote" "\<not> is_ws CHR ''-''" "\<not> is_ws CHR '':''" "\<not> is_ws CHR '',''"
  "\<not> is_ws CHR ''}''" "\<not> is_ws CHR ''{''" "is_ws CHR '' ''"
  by (simp_all add: is_ws_def dquote_def)

lemma skip_ws_int_repr: "skip_ws (int_repr v @ rest) = int_repr v @ rest"
proof -
  obtain c cs where h: "int_repr v = c # cs"
    "is_digit c \<or> c = CHR ''-'' \<and> (\<exists>d ds. cs = d # ds \<and> is_digit d)"
    using int_repr_head [of v] by (elim exE conjE) auto
  then have "\<not> is_ws c"
    using is_digit_not_ws punct_not_ws(2) by auto
  then show ?thesis
    by (simp add: h(1) skip_ws_Cons)
qed

lemma parse_value_int_repr:
  assumes "value_end rest"
  shows "parse_value (int_repr v @ rest) = Some (JInt v, rest)"
proof -
  obtain c cs where h: "int_repr v = c # cs"
    "is_digit c \<or> c = CHR ''-'' \<and> (\<exists>d ds. cs = d # ds \<and> is_digit d)"
    using int_repr_head [of v] by (elim exE conjE) auto
  then have c: "c \<noteq> dquote" "c \<noteq> CHR ''{''" "c \<noteq> CHR ''[''"
    by (auto simp: is_digit_def dquote_def)
  have "parse_value (c # cs @ rest) = scan_atom (c # cs @ rest)"
    using c by (subst parse_value.simps) simp
  then show ?thesis
    using scan_atom_int_repr [OF assms, of v] h(1) by simp
qed

lemma parse_object_item:
  assumes "value_end rest"
  shows "parse_object (dump_item kv @ rest) =
     (case rest of
        e # es \<Rightarrow>
          if e = CHR ''}'' then Some ([(fst kv, JInt (snd kv))], es)
          else if e = CHR '','' \<and> length es < length (dump_item kv @ rest) then
            (case parse_object (skip_ws es) of
               None \<Rightarrow> None
             | Some (m, r3) \<Rightarrow> Some ((fst kv, JInt (snd kv)) # m, r3))
          else None)"
proof -
  obtain e es where r: "rest = e # es" and e: "e = CHR '','' \<or> e = CHR ''}''"
    using assms by (auto simp: value_end_def split: list.splits)
  have ws: "skip_ws rest = rest"
    using e r punct_not_ws by (auto simp: skip_ws_Cons)
  let ?body = "concat (map escape_char (fst kv))"
  have item: "dump_item kv @ rest = dquote # ?body @ dquote # (CHR '':'' # CHR '' '' # int_repr (snd kv) @ rest)"
    by (simp add: dump_item_def encode_basestring_def)
  have str: "scan_string (?body @ dquote # (CHR '':'' # CHR '' '' # int_repr (snd kv) @ rest)) =
               Some (fst kv, CHR '':'' # CHR '' '' # int_repr (snd kv) @ rest)"
    by (rule scan_string_encoded)
  have colon: "skip_ws (CHR '':'' # CHR '' '' # int_repr (snd kv) @ rest) =
                 CHR '':'' # CHR '' '' # int_repr (snd kv) @ rest"
    by (simp add: skip_ws_Cons punct_not_ws)
  have sp: "skip_ws (CHR '' '' # int_repr (snd kv) @ rest) = int_repr (snd kv) @ rest"
    using skip_ws_int_repr [of "snd kv" rest] punct_not_ws(7) by (simp add: skip_ws_def)
  have val: "parse_value (int_repr (snd kv) @ rest) = Some (JInt (snd kv), rest)"
    using assms by (rule parse_value_int_repr)
  have "parse_object (dump_item kv @ rest) =
          (case rest of
             [] \<Rightarrow> None
           | e # es \<Rightarrow>
               if e = CHR ''}'' then Some ([(fst kv, JInt (snd kv))], es)
               else if e = CHR '','' \<and> length es < length (dump_item kv @ rest) then
                 (case parse_object (skip_ws es) of
                    None \<Rightarrow> None
                  | Some (m, r3) \<Rightarrow> Some ((fst kv, JInt (snd kv)) # m, r3))
               else None)"
    unfolding item
    by (subst parse_object.simps) (simp add: str colon sp val ws)
  then show ?thesis
    by (simp add: r)
qed

lemma dump_items_head: "kvs \<noteq> [] \<Longrightarrow> \<exists>cs. dump_items kvs = dquote # cs"
  by (cases kvs rule: dump_items.cases) (auto simp: dump_item_def encode_basestring_def)

lemma parse_object_dump_items:
  assumes "kvs \<noteq> []"
  shows "parse_object (dump_items kvs @ CHR ''}'' # rest) =
           Some (map (\<lambda>kv. (fst kv, JInt (snd kv))) kvs, rest)"
  using assms
proof (induction kvs rule: dump_items.induct)
  case 1
  then show ?case by simp
next
  case (2 kv)
  have "value_end (CHR ''}'' # rest)" by (simp add: value_end_def)
  from parse_object_item [OF this, of kv] show ?case by simp
next
  case (3 kv kv' kvs)
  let ?tail = "dump_items (kv' # kvs) @ CHR ''}'' # rest"
  have ve: "value_end (CHR '','' # CHR '' '' # ?tail)" by (simp add: value_end_def)
  obtain cs where cs: "dump_items (kv' # kvs) = dquote # cs"
    using dump_items_head [of "kv' # kvs"] by auto
  have ws: "skip_ws (CHR '' '' # ?tail) = ?tail"
    using punct_not_ws(1,7) by (simp add: skip_ws_def cs)
  have ih: "parse_object ?tail = Some (map (\<lambda>kv. (fst kv, JInt (snd kv))) (kv' # kvs), rest)"
    using 3 by simp
  have "dump_items (kv # kv' # kvs) @ CHR ''}'' # rest = dump_item kv @ CHR '','' # CHR '' '' # ?tail"
    by simp
  then show ?case
    using parse_object_item [OF ve, of kv] ws ih by simp
qed

lemma json_loads_dumps: "json_loads (json_dumps counts) = Some (counts_value counts)"
proof (cases "counts = []")
  case True
  have "parse_value ''{}'' = Some (JObj [], [])"
    by (subst parse_value.simps) (simp add: dquote_def skip_ws_Cons punct_not_ws)
  with True show ?thesis
    by (simp add: json_loads_def json_dumps_def counts_value_def skip_ws_Cons punct_not_ws skip_ws_def)
next
  case False
  obtain cs where cs: "dump_items counts = dquote # cs"
    using dump_items_head [OF False] by auto
  have obj: "parse_object (dquote # cs @ ''}'') = Some (map (\<lambda>kv. (fst kv, JInt (snd kv))) counts, [])"
    using parse_object_dump_items [OF False, of "[]"] cs by simp
  have "dquote \<noteq> CHR ''}''" "CHR ''{'' \<noteq> dquote" by (simp_all add: dquote_def)
  then have "parse_value (CHR ''{'' # dquote # cs @ ''}'') = Some (counts_value counts, [])"
    by (subst parse_value.simps)
       (simp add: skip_ws_Cons punct_not_ws obj counts_value_def)
  then show ?thesis
    by (simp add: json_loads_def json_dumps_def cs skip_ws_Cons punct_not_ws skip_ws_def)
qed

section \<open>Properties of the store queries\<close>


lemma mset_order_by_id_desc: "mset (order_by_id_desc rs) = mset rs"
  by (simp add: order_by_id_desc_def)

lemma set_order_by_id_desc: "set (order_by_id_desc rs) = set rs"
  by (simp add: order_by_id_desc_def)

lemma sum_list_order_by_id_desc:
  "sum_list (map f (order_by_id_desc rs)) = (sum_list (map f rs) :: int)"
proof -
  have "sum_mset (image_mset f (mset (order_by_id_desc rs))) = sum_mset (image_mset f (mset rs))"
    by (simp only: mset_order_by_id_desc)
  then show ?thesis
    by (metis mset_map sum_mset_sum_list)
qed




lemma init_db_store_ok: "store_ok (init_db None)"
  by (simp add: store_ok_def init_db_def)




lemma scenario_fetch_all: "map row_id (fetch_all scenario_store) = [3, 2, 1]"
  by (simp add: fetch_all_def order_by_id_desc_def scenario_store_def insert_request_def
      init_db_def next_id_def)





lemma db_exec_query: "\<not> is_insert c \<Longrightarrow> snd (db_exec bi c st) = st"
  by (cases c) simp_all

lemma db_run_queries: "list_all (\<lambda>c. \<not> is_insert c) cs \<Longrightarrow> snd (db_run bi cs st) = st"
proof (induction cs arbitrary: st)
  case Nil
  show ?case by simp
next
  case (Cons c cs)
  then have c: "snd (db_exec bi c st) = st" and cs: "snd (db_run bi cs st) = st"
    by (simp_all add: db_exec_query)
  then show ?case
    by (simp split: prod.splits) (metis snd_conv)
qed

text \<open>
  Claim C8. A query leaves the database as it found it, so \<open>get_summary\<close> called twice, with
  any calls but inserts in between, returns the same result both times, and so does
  \<open>get_counts_by_class\<close> (the same totals, or the same error).
\<close>

theorem queries_repeatable:
  assumes "list_all (\<lambda>c. \<not> is_insert c) cs"
  shows "fst (db_exec bi Summary (snd (db_run bi cs (snd (db_exec bi Summary st))))) =
           fst (db_exec bi Summary st) \<and>
         fst (db_exec bi TotalsByClass (snd (db_run bi cs (snd (db_exec bi TotalsByClass st))))) =
           fst (db_exec bi TotalsByClass st)"
  using assms by (simp add: db_run_queries)

theorem queries_repeatable_witness:
  "list_all (\<lambda>c. \<not> is_insert c) [RecentRows 2, TotalsByClass, AllRows] \<and>
   fst (db_exec sample_builtins Summary
          (snd (db_run sample_builtins [RecentRows 2, TotalsByClass, AllRows]
                  (snd (db_exec sample_builtins Summary scenario_store))))) =
     fst (db_exec sample_builtins Summary scenario_store) \<and>
   fst (db_exec sample_builtins TotalsByClass
          (snd (db_run sample_builtins [RecentRows 2, TotalsByClass, AllRows]
                  (snd (db_exec sample_builtins TotalsByClass scenario_store))))) =
     fst (db_exec sample_builtins TotalsByClass scenario_store)"
proof -
  have q: "list_all (\<lambda>c. \<not> is_insert c) [RecentRows 2, TotalsByClass, AllRows]"
    by simp
  show ?thesis
    using q queries_repeatable [OF q, of sample_builtins scenario_store] by simp
qed

section \<open>Properties of the aggregation over the history\<close>

lemma add_items_result:
  assumes "list_all (\<lambda>kv. converts bi (snd kv)) items"
  shows "\<exists>t. add_items bi totals items = Inr t \<and>
             (\<forall>k. dict_get t k 0 = dict_get totals k 0 + class_count bi k items)"
  using assms
proof (induction items arbitrary: totals)
  case Nil
  show ?case by (simp add: class_count_def)
next
  case (Cons kv items)
  obtain key v where kv: "kv = (key, v)" by (cases kv)
  from Cons.prems obtain n where n: "py_int bi v = Inr n"
    by (auto simp: kv converts_def split: sum.splits)
  from Cons.prems have "list_all (\<lambda>kv. converts bi (snd kv)) items" by simp
  from Cons.IH [OF this, of "dict_set totals key (dict_get totals key 0 + n)"]
  obtain t where t: "add_items bi (dict_set totals key (dict_get totals key 0 + n)) items = Inr t"
    and g: "\<forall>k. dict_get t k 0 =
              dict_get (dict_set totals key (dict_get totals key 0 + n)) k 0 + class_count bi k items"
    by blast
  have "dict_get t k 0 = dict_get totals k 0 + class_count bi k (kv # items)" for k
    using spec [OF g, of k] n by (simp add: kv dict_get_set class_count_def int_or_zero_def)
  with t n show ?case by (simp add: kv)
qed

lemma add_items_abort:
  assumes "\<not> list_all (\<lambda>kv. converts bi (snd kv)) items"
  shows "\<exists>x. add_items bi totals items = Inl x"
  using assms
proof (induction items arbitrary: totals)
  case Nil
  then show ?case by simp
next
  case (Cons kv items)
  obtain key v where kv: "kv = (key, v)" by (cases kv)
  show ?case
  proof (cases "py_int bi v")
    case (Inl x)
    then show ?thesis by (simp add: kv)
  next
    case (Inr n)
    with Cons.prems have "\<not> list_all (\<lambda>kv. converts bi (snd kv)) items"
      by (simp add: kv converts_def)
    from Cons.IH [OF this] Inr show ?thesis by (simp add: kv)
  qed
qed

lemma add_rows_result:
  assumes "list_all (readable_row bi) rs"
  shows "\<exists>t. add_rows bi totals rs = Inr t \<and>
             (\<forall>k. dict_get t k 0 = dict_get totals k 0 + (\<Sum>r\<leftarrow>rs. row_class_count bi k r))"
  using assms
proof (induction rs arbitrary: totals)
  case Nil
  show ?case by simp
next
  case (Cons r rs)
  from Cons.prems obtain items where items: "counts_items (row_counts r) = Inr items"
    and conv: "list_all (\<lambda>kv. converts bi (snd kv)) items"
    by (auto simp: readable_row_def split: sum.splits)
  from add_items_result [OF conv, of totals]
  obtain t1 where t1: "add_items bi totals items = Inr t1"
    and g1: "\<forall>k. dict_get t1 k 0 = dict_get totals k 0 + class_count bi k items"
    by blast
  from Cons.prems have "list_all (readable_row bi) rs" by simp
  from Cons.IH [OF this, of t1]
  obtain t where t: "add_rows bi t1 rs = Inr t"
    and g: "\<forall>k. dict_get t k 0 = dict_get t1 k 0 + (\<Sum>r\<leftarrow>rs. row_class_count bi k r)"
    by blast
  have "dict_get t k 0 = dict_get totals k 0 + (\<Sum>r\<leftarrow>r # rs. row_class_count bi k r)" for k
    using spec [OF g, of k] spec [OF g1, of k] by (simp add: row_class_count_def items)
  with t t1 items show ?case by simp
qed

lemma add_rows_abort:
  assumes "\<not> list_all (readable_row bi) rs"
  shows "\<exists>x. add_rows bi totals rs = Inl x"
  using assms
proof (induction rs arbitrary: totals)
  case Nil
  then show ?case by simp
next
  case (Cons r rs)
  show ?case
  proof (cases "readable_row bi r")
    case True
    then obtain items where items: "counts_items (row_counts r) = Inr items"
      and conv: "list_all (\<lambda>kv. converts bi (snd kv)) items"
      by (auto simp: readable_row_def split: sum.splits)
    from add_items_result [OF conv, of totals]
    obtain t1 where t1: "add_items bi totals items = Inr t1" by blast
    from True Cons.prems have "\<not> list_all (readable_row bi) rs" by simp
    from Cons.IH [OF this, of t1] items t1 show ?thesis by simp
  next
    case False
    show ?thesis
    proof (cases "counts_items (row_counts r)")
      case (Inl x)
      then show ?thesis by simp
    next
      case (Inr items)
      with False have "\<not> list_all (\<lambda>kv. converts bi (snd kv)) items"
        by (simp add: readable_row_def)
      from add_items_abort [OF this, of totals] Inr show ?thesis by auto
    qed
  qed
qed

lemma undecodable_row:
  assumes "json_loads (counts_json r) = None"
  shows "readable_row bi r" and "row_class_count bi k r = 0"
  using assms
  by (simp_all add: readable_row_def row_class_count_def row_counts_def counts_items_def
      py_dict_def class_count_def)

lemma sum_list_rows_order:
  "(\<Sum>r\<leftarrow>order_by_id_desc rs. f r) = (\<Sum>r\<leftarrow>rs. (f r :: int))"
  by (rule sum_list_order_by_id_desc)

lemma get_counts_by_class_result:
  assumes "list_all (readable_row bi) (rows st)"
  shows "\<exists>t. get_counts_by_class bi st = Inr t \<and>
             (\<forall>k. dict_get t k 0 = (\<Sum>r\<leftarrow>rows st. row_class_count bi k r))"
proof -
  have "list_all (readable_row bi) (fetch_all st)"
    using assms by (simp add: fetch_all_def list_all_iff set_order_by_id_desc)
  from add_rows_result [OF this, of "[]"]
  show ?thesis
    by (simp add: get_counts_by_class_def dict_get_empty fetch_all_def sum_list_order_by_id_desc)
qed

lemma get_counts_by_class_abort:
  assumes "\<not> list_all (readable_row bi) (rows st)"
  shows "\<exists>x. get_counts_by_class bi st = Inl x"
proof -
  have "\<not> list_all (readable_row bi) (fetch_all st)"
    using assms by (simp add: fetch_all_def list_all_iff set_order_by_id_desc)
  from add_rows_abort [OF this, of "[]"]
  show ?thesis
    by (simp add: get_counts_by_class_def)
qed

text \<open>
  Claim C4, evaluated where it fails. A fourth row whose counts are not JSON at all is
  passed over: the totals are those of the other three rows. A fourth row whose counts
  are the JSON text of a list decodes, has no \<^verbatim>\<open>items\<close>, and the whole aggregation ends
  with \<^verbatim>\<open>AttributeError\<close> instead of the totals of the other three rows.
\<close>

theorem get_counts_by_class_corrupt_row:
  "get_counts_by_class sample_builtins scenario_store = Inr [(''banana'', 1), (''apple'', 3)] \<and>
   json_loads (CHR ''{'' # dquote # ''apple'') = None \<and>
   get_counts_by_class sample_builtins truncated_store = Inr [(''banana'', 1), (''apple'', 3)] \<and>
   json_loads ''[]'' = Some (JArr []) \<and>
   get_counts_by_class sample_builtins corrupt_store = Inl AttributeError"
  by code_simp

section \<open>Properties of insertion\<close>

lemma fold_max_ge: "(a::int) \<le> fold max xs a \<and> (\<forall>x\<in>set xs. x \<le> fold max xs a)"
proof (induction xs arbitrary: a)
  case Nil
  show ?case by simp
next
  case (Cons y ys)
  from Cons [of "max y a"] show ?case by auto
qed

lemma next_id_above: "r \<in> set (rows st) \<Longrightarrow> row_id r < next_id st"
  using fold_max_ge [of "seq st" "map row_id (rows st)"] by (auto simp: next_id_def)

lemma next_id_above_seq: "seq st < next_id st"
  using fold_max_ge [of "seq st" "map row_id (rows st)"] by (auto simp: next_id_def)

lemma insort_key_snoc:
  "f y \<le> f x \<Longrightarrow> insort_key f y (ys @ [x]) = insort_key f y ys @ [x]"
  by (induction ys) auto

lemma sort_key_snoc:
  assumes "\<forall>y\<in>set ys. f y \<le> f x"
  shows "sort_key f (ys @ [x]) = sort_key f ys @ [x]"
proof -
  have "foldr (insort_key f) ys [x] = foldr (insort_key f) ys [] @ [x]"
    using assms by (induction ys) (simp_all add: insort_key_snoc)
  then show ?thesis by (simp add: sort_key_def)
qed

lemma order_by_id_desc_snoc:
  assumes "\<forall>y\<in>set rs. row_id y < row_id r"
  shows "order_by_id_desc (rs @ [r]) = r # order_by_id_desc rs"
proof -
  have "\<forall>y\<in>set rs. row_id y \<le> row_id r" using assms by auto
  then show ?thesis by (simp add: order_by_id_desc_def sort_key_snoc)
qed

lemma insert_request_rows:
  assumes "insert_request fname out counts n mname created ms st = (rid, st')"
  shows "rid = next_id st"
    and "rows st' = rows st @
           [\<lparr>row_id = rid, filename = fname, output_path = out, counts_json = json_dumps counts,
             total_count = n, model_name = mname, created_at = created, processing_ms = ms\<rparr>]"
    and "seq st' = rid"
  using assms by (auto simp: insert_request_def Let_def)

lemma insert_request_fetch_all:
  assumes "insert_request fname out counts n mname created ms st = (rid, st')"
  shows "fetch_all st' =
           \<lparr>row_id = rid, filename = fname, output_path = out, counts_json = json_dumps counts,
             total_count = n, model_name = mname, created_at = created, processing_ms = ms\<rparr>
           # fetch_all st"
  using insert_request_rows [OF assms] next_id_above [of _ st]
  by (simp add: fetch_all_def order_by_id_desc_snoc)

lemma insert_request_store_ok:
  assumes "insert_request fname out counts n mname created ms st = (rid, st')" and "store_ok st"
  shows "store_ok st'"
proof -
  note r = insert_request_rows [OF assms(1)]
  have "\<forall>x\<in>set (rows st). row_id x < rid"
    using next_id_above [of _ st] r(1) by simp
  then show ?thesis
    using assms(2) by (fastforce simp: store_ok_def r list_all_iff)
qed

lemma update_fresh: "k \<notin> fst ` set al \<Longrightarrow> AList.update k v al = al @ [(k, v)]"
  by (induction al) auto

lemma py_dict_distinct_aux:
  "distinct (map fst (acc @ kvs)) \<Longrightarrow>
   foldl (\<lambda>d (k, v). dict_set d k v) acc kvs = acc @ kvs"
proof (induction kvs arbitrary: acc)
  case Nil
  show ?case by simp
next
  case (Cons kv kvs)
  obtain k v where kv: "kv = (k, v)" by (cases kv)
  from Cons.prems have fresh: "k \<notin> fst ` set acc" by (auto simp: kv)
  from Cons.prems have "distinct (map fst ((acc @ [(k, v)]) @ kvs))" by (simp add: kv)
  from Cons.IH [OF this] fresh show ?case
    by (simp add: kv dict_set_def update_fresh)
qed

lemma py_dict_distinct: "distinct (map fst kvs) \<Longrightarrow> py_dict kvs = kvs"
  using py_dict_distinct_aux [of "[]" kvs] by (simp add: py_dict_def)

lemma class_count_counts:
  assumes "distinct (dict_keys counts)"
  shows "class_count bi k (map (\<lambda>kv. (fst kv, JInt (snd kv))) counts) = dict_get counts k 0"
  using assms
proof (induction counts)
  case Nil
  show ?case by (simp add: class_count_def dict_get_def)
next
  case (Cons kv counts)
  obtain k' v where kv: "kv = (k', v)" by (cases kv)
  from Cons.prems have d: "distinct (dict_keys counts)" and fresh: "k' \<notin> fst ` set counts"
    by (auto simp: dict_keys_def kv)
  have ih: "class_count bi k (map (\<lambda>kv. (fst kv, JInt (snd kv))) counts) = dict_get counts k 0"
    using Cons.IH [OF d] .
  show ?case
  proof (cases "k' = k")
    case True
    with fresh have "map_of counts k = None" by (simp add: map_of_eq_None_iff)
    then have "dict_get counts k 0 = 0" by (simp add: dict_get_def)
    with ih True show ?thesis
      by (simp add: kv class_count_def dict_get_def int_or_zero_def py_int_def)
  next
    case False
    with ih show ?thesis
      by (simp add: kv class_count_def dict_get_def)
  qed
qed

lemma counts_value_items:
  assumes "distinct (dict_keys counts)"
  shows "counts_items (counts_value counts) = Inr (map (\<lambda>kv. (fst kv, JInt (snd kv))) counts)"
proof -
  have "map fst (map (\<lambda>kv. (fst kv, JInt (snd kv))) counts) = map fst counts"
    by (simp add: comp_def)
  then have "distinct (map fst (map (\<lambda>kv. (fst kv, JInt (snd kv))) counts))"
    using assms by (simp only: dict_keys_def)
  then show ?thesis
    by (simp add: counts_items_def counts_value_def py_dict_distinct)
qed

lemma written_row:
  assumes "distinct (dict_keys counts)" and "counts_json r = json_dumps counts"
  shows "row_counts r = counts_value counts"
    and "readable_row bi r"
    and "row_class_count bi k r = dict_get counts k 0"
proof -
  show rc: "row_counts r = counts_value counts"
    by (simp add: row_counts_def assms(2) json_loads_dumps)
  show "readable_row bi r"
    by (simp add: readable_row_def rc counts_value_items [OF assms(1)] list_all_iff
        converts_def py_int_def)
  show "row_class_count bi k r = dict_get counts k 0"
    by (simp add: row_class_count_def rc counts_value_items [OF assms(1)]
        class_count_counts [OF assms(1)])
qed

lemma readable_of_result:
  assumes "get_counts_by_class bi st = Inr t"
  shows "list_all (readable_row bi) (rows st)"
  using assms get_counts_by_class_abort [of bi st] by auto

lemma insert_request_totals:
  assumes "distinct (dict_keys counts)"
    and "insert_request fname out counts n mname created ms st = (rid, st')"
    and "get_counts_by_class bi st = Inr t0"
  shows "\<exists>t1. get_counts_by_class bi st' = Inr t1 \<and>
              (\<forall>k. dict_get t1 k 0 = dict_get t0 k 0 + dict_get counts k 0)"
proof -
  let ?r = "\<lparr>row_id = rid, filename = fname, output_path = out, counts_json = json_dumps counts,
             total_count = n, model_name = mname, created_at = created, processing_ms = ms\<rparr>"
  have rows': "rows st' = rows st @ [?r]"
    using insert_request_rows(2) [OF assms(2)] .
  have old: "list_all (readable_row bi) (rows st)"
    using assms(3) by (rule readable_of_result)
  have new: "readable_row bi ?r" "\<And>k. row_class_count bi k ?r = dict_get counts k 0"
    using written_row [OF assms(1), of ?r] by simp_all
  from get_counts_by_class_result [OF old] assms(3)
  have g0: "\<forall>k. dict_get t0 k 0 = (\<Sum>r\<leftarrow>rows st. row_class_count bi k r)"
    by simp
  have "list_all (readable_row bi) (rows st')"
    using old new(1) by (simp add: rows')
  from get_counts_by_class_result [OF this]
  obtain t1 where t1: "get_counts_by_class bi st' = Inr t1"
    and g1: "\<forall>k. dict_get t1 k 0 = (\<Sum>r\<leftarrow>rows st'. row_class_count bi k r)"
    by blast
  have "dict_get t1 k 0 = dict_get t0 k 0 + dict_get counts k 0" for k
    using spec [OF g1, of k] spec [OF g0, of k] new(2) [of k] by (simp add: rows')
  with t1 show ?thesis by blast
qed

lemma insert_all_snoc:
  "insert_all (reqs @ [q]) st =
     snd (insert_request (nr_filename q) (nr_output_path q) (nr_counts q) (nr_total q)
            (nr_model q) (nr_created q) (nr_ms q) (insert_all reqs st))"
  by (simp add: insert_all_def)

lemma insert_all_totals:
  assumes "list_all (\<lambda>q. distinct (dict_keys (nr_counts q))) reqs"
  shows "\<exists>t. get_counts_by_class bi (insert_all reqs (init_db None)) = Inr t \<and>
             (\<forall>k. dict_get t k 0 = (\<Sum>q\<leftarrow>reqs. dict_get (nr_counts q) k 0))"
  using assms
proof (induction reqs rule: rev_induct)
  case Nil
  show ?case
    by (simp add: insert_all_def init_db_def get_counts_by_class_def fetch_all_def
        order_by_id_desc_def dict_get_empty)
next
  case (snoc q reqs)
  then obtain t0 where t0: "get_counts_by_class bi (insert_all reqs (init_db None)) = Inr t0"
    and g0: "\<forall>k. dict_get t0 k 0 = (\<Sum>q\<leftarrow>reqs. dict_get (nr_counts q) k 0)"
    by auto
  from snoc.prems have d: "distinct (dict_keys (nr_counts q))" by simp
  obtain rid st' where ins: "insert_request (nr_filename q) (nr_output_path q) (nr_counts q) (nr_total q)
            (nr_model q) (nr_created q) (nr_ms q) (insert_all reqs (init_db None)) = (rid, st')"
    by (metis surj_pair)
  from insert_request_totals [OF d ins t0]
  obtain t1 where t1: "get_counts_by_class bi st' = Inr t1"
    and g1: "\<forall>k. dict_get t1 k 0 = dict_get t0 k 0 + dict_get (nr_counts q) k 0"
    by blast
  have "insert_all (reqs @ [q]) (init_db None) = st'"
    by (simp add: insert_all_snoc ins)
  moreover have "dict_get t1 k 0 = (\<Sum>q\<leftarrow>reqs @ [q]. dict_get (nr_counts q) k 0)" for k
    using spec [OF g1, of k] spec [OF g0, of k] by simp
  ultimately show ?case using t1 by auto
qed


text \<open>
  Claim C9. For a dictionary of counts (distinct string keys, integer values),
  \<open>insert_request\<close> writes a JSON text that decodes back to exactly the same mapping; the
  new record is the first that \<open>fetch_all\<close> returns afterwards, with the identifier
  \<open>insert_request\<close> returned and every supplied field unchanged, and its counts read back as
  they were given. Where the history could be aggregated before the insertion, the total
  of every class grows by the inserted count of that class; on a store filled by
  insertions only, the totals are the keywise sums of the inserted dictionaries.
\<close>

theorem insert_request_round_trip:
  assumes "distinct (dict_keys counts)"
    and "insert_request fname out counts n mname created ms st = (rid, st')"
  shows "json_loads (json_dumps counts) = Some (counts_value counts) \<and>
         counts_items (counts_value counts) = Inr (map (\<lambda>kv. (fst kv, JInt (snd kv))) counts) \<and>
         fetch_all st' =
           \<lparr>row_id = rid, filename = fname, output_path = out, counts_json = json_dumps counts,
             total_count = n, model_name = mname, created_at = created, processing_ms = ms\<rparr>
           # fetch_all st \<and>
         row_counts (hd (fetch_all st')) = counts_value counts \<and>
         (\<forall>t0. get_counts_by_class bi st = Inr t0 \<longrightarrow>
            (\<exists>t1. get_counts_by_class bi st' = Inr t1 \<and>
                  (\<forall>k. dict_get t1 k 0 = dict_get t0 k 0 + dict_get counts k 0))) \<and>
         (list_all (\<lambda>q. distinct (dict_keys (nr_counts q))) reqs \<longrightarrow>
            (\<exists>t. get_counts_by_class bi (insert_all reqs (init_db None)) = Inr t \<and>
                 (\<forall>k. dict_get t k 0 = (\<Sum>q\<leftarrow>reqs. dict_get (nr_counts q) k 0))))"
proof -
  let ?r = "\<lparr>row_id = rid, filename = fname, output_path = out, counts_json = json_dumps counts,
             total_count = n, model_name = mname, created_at = created, processing_ms = ms\<rparr>"
  have all: "fetch_all st' = ?r # fetch_all st"
    using assms(2) by (rule insert_request_fetch_all)
  have "row_counts ?r = counts_value counts"
    using written_row(1) [OF assms(1), of ?r] by simp
  then have rc: "row_counts (hd (fetch_all st')) = counts_value counts"
    by (simp add: all)
  have tot: "\<forall>t0. get_counts_by_class bi st = Inr t0 \<longrightarrow>
            (\<exists>t1. get_counts_by_class bi st' = Inr t1 \<and>
                  (\<forall>k. dict_get t1 k 0 = dict_get t0 k 0 + dict_get counts k 0))"
    using insert_request_totals [OF assms] by blast
  have seqs: "list_all (\<lambda>q. distinct (dict_keys (nr_counts q))) reqs \<longrightarrow>
            (\<exists>t. get_counts_by_class bi (insert_all reqs (init_db None)) = Inr t \<and>
                 (\<forall>k. dict_get t k 0 = (\<Sum>q\<leftarrow>reqs. dict_get (nr_counts q) k 0)))"
    using insert_all_totals by blast
  show ?thesis
    using json_loads_dumps [of counts] counts_value_items [OF assms(1)] all rc tot seqs
    by blast
qed

theorem insert_request_round_trip_witness:
  "distinct (dict_keys [(''orange'', 3), (''apple'', 1 :: int)]) \<and>
   fst (insert_request ''e.jpeg'' ''e_result.jpg'' [(''orange'', 3), (''apple'', 1)] 4
          ''yolov8n.pt'' ''2024-05-01 10:00:20'' 52 scenario_store) = 4 \<and>
   json_loads (json_dumps [(''orange'', 3), (''apple'', 1)]) =
     Some (JObj [(''orange'', JInt 3), (''apple'', JInt 1)]) \<and>
   map row_id (fetch_all (snd (insert_request ''e.jpeg'' ''e_result.jpg'' [(''orange'', 3), (''apple'', 1)] 4
          ''yolov8n.pt'' ''2024-05-01 10:00:20'' 52 scenario_store))) = [4, 3, 2, 1] \<and>
   row_counts (hd (fetch_all (snd (insert_request ''e.jpeg'' ''e_result.jpg''
          [(''orange'', 3), (''apple'', 1)] 4 ''yolov8n.pt'' ''2024-05-01 10:00:20'' 52 scenario_store)))) =
     JObj [(''orange'', JInt 3), (''apple'', JInt 1)] \<and>
   get_counts_by_class sample_builtins scenario_store = Inr [(''banana'', 1), (''apple'', 3)] \<and>
   get_counts_by_class sample_builtins (snd (insert_request ''e.jpeg'' ''e_result.jpg''
          [(''orange'', 3), (''apple'', 1)] 4 ''yolov8n.pt'' ''2024-05-01 10:00:20'' 52 scenario_store)) =
     Inr [(''orange'', 3), (''apple'', 4), (''banana'', 1)]"
proof -
  let ?c = "[(''orange'', 3), (''apple'', 1 :: int)]"
  let ?ins = "insert_request ''e.jpeg'' ''e_result.jpg'' ?c 4 ''yolov8n.pt'' ''2024-05-01 10:00:20'' 52
                scenario_store"
  have d: "distinct (dict_keys ?c)" by (simp add: dict_keys_def)
  have i: "?ins = (fst ?ins, snd ?ins)" by simp
  have rid: "fst ?ins = 4" by code_simp
  have cv: "counts_value ?c = JObj [(''orange'', JInt 3), (''apple'', JInt 1)]"
    by (simp add: counts_value_def)
  have t0: "get_counts_by_class sample_builtins scenario_store = Inr [(''banana'', 1), (''apple'', 3)]"
    by code_simp
  have t1: "get_counts_by_class sample_builtins (snd ?ins) =
              Inr [(''orange'', 3), (''apple'', 4), (''banana'', 1)]"
    by code_simp
  note th = insert_request_round_trip [OF d i, of sample_builtins "[]"]
  have a: "json_loads (json_dumps ?c) = Some (counts_value ?c)"
    using th by (rule conjunct1)
  have b: "map row_id (fetch_all (snd ?ins)) = fst ?ins # map row_id (fetch_all scenario_store)"
    using arg_cong [OF conjunct1 [OF conjunct2 [OF conjunct2 [OF th]]], of "map row_id"] by simp
  have c: "row_counts (hd (fetch_all (snd ?ins))) = counts_value ?c"
    using th by blast
  show ?thesis
    using d rid t0 t1 a b c cv scenario_fetch_all by simp
qed

section \<open>Properties of the detection adapter\<close>

lemma count_classes_get:
  "dict_get (count_classes names counts cls) k 0 =
     dict_get counts k 0 +
       (if k \<in> FRUIT_CLASSES
        then int (length (filter (\<lambda>c. str_lower (dict_get names c ''unknown'') = k) cls)) else 0)"
  by (induction cls arbitrary: counts) (auto simp: Let_def dict_get_set)

lemma count_classes_keys:
  "set (dict_keys (count_classes names counts cls)) \<subseteq> set (dict_keys counts) \<union> FRUIT_CLASSES"
proof (induction cls arbitrary: counts)
  case Nil
  show ?case by simp
next
  case (Cons c cls)
  let ?key = "str_lower (dict_get names c ''unknown'')"
  show ?case
  proof (cases "?key \<in> FRUIT_CLASSES")
    case True
    have "set (dict_keys (count_classes names (dict_set counts ?key (dict_get counts ?key 0 + 1)) cls))
            \<subseteq> insert ?key (set (dict_keys counts)) \<union> FRUIT_CLASSES"
      using Cons.IH [of "dict_set counts ?key (dict_get counts ?key 0 + 1)"]
      by (simp add: dict_keys_set)
    with True show ?thesis by (auto simp: Let_def)
  next
    case False
    with Cons.IH [of counts] show ?thesis by (simp add: Let_def)
  qed
qed

lemma count_classes_distinct:
  "distinct (dict_keys counts) \<Longrightarrow> distinct (dict_keys (count_classes names counts cls))"
  by (induction cls arbitrary: counts) (auto simp: Let_def dict_keys_set_distinct)

lemma count_classes_sum:
  "sum_list (dict_values (count_classes names counts cls)) =
     sum_list (dict_values counts) +
       int (length (filter (\<lambda>c. str_lower (dict_get names c ''unknown'') \<in> FRUIT_CLASSES) cls))"
  by (induction cls arbitrary: counts) (auto simp: Let_def dict_values_set_sum)













section \<open>Properties of the request pipeline\<close>

lemma get_supported_fruits_no_load:
  "\<exists>fruits. fst (get_supported_fruits y False ms) = Inr fruits"
  by (auto simp: get_supported_fruits_def load_model_def Let_def split: option.splits)

lemma build_context_state:
  "db (snd (build_context e res err l st)) = db st \<and>
   uploads (snd (build_context e res err l st)) = uploads st \<and>
   outputs (snd (build_context e res err l st)) = outputs st"
  by (simp add: build_context_def Let_def split: sum.splits prod.splits)

lemma build_context_page:
  assumes "fst (build_context e res err l st) = Inr c"
  shows "ctx_result c = res" and "ctx_error c = err"
  using assms
  by (auto simp: build_context_def Let_def split: sum.splits prod.splits)

lemma build_context_rejection:
  assumes "get_counts_by_class (interp e) (db st) = Inr t"
  shows "\<exists>c. fst (build_context e res err False st) = Inr c"
proof -
  obtain fruits where "fst (get_supported_fruits (yolo e) False (mstate st)) = Inr fruits"
    using get_supported_fruits_no_load by blast
  then show ?thesis
    using assms
    by (cases "get_supported_fruits (yolo e) False (mstate st)")
       (simp add: build_context_def Let_def)
qed

lemma build_context_raises:
  assumes "fst (build_context e res err False st) = Inl x"
  shows "get_counts_by_class (interp e) (db st) = Inl x"
proof (cases "get_counts_by_class (interp e) (db st)")
  case (Inl y)
  with assms show ?thesis by (simp add: build_context_def Let_def)
next
  case (Inr t)
  from build_context_rejection [OF this, of res err] assms show ?thesis by auto
qed

lemma render_fst:
  "fst (render r) = (case fst r of Inl x \<Rightarrow> Raised x | Inr c \<Rightarrow> Page c)"
  by (simp add: render_def split: prod.splits sum.splits)

lemma render_snd: "snd (render r) = snd r"
  by (simp add: render_def split: prod.splits sum.splits)

lemma respond_rejected:
  "respond e (Rejected msg, st) = render (build_context e None (Some msg) False st)"
  by (simp add: respond_def)

lemma pipeline_rejected:
  assumes "upload_filename up = Some fname"
    and "str_lower (path_suffix fname) \<notin> ALLOWED_EXTENSIONS \<or>
         MAX_FILE_MB * 1024 * 1024 < int (length (contents up))"
  shows "pipeline e up st =
           (Rejected (if str_lower (path_suffix fname) \<notin> ALLOWED_EXTENSIONS then UnsupportedType
                      else TooLarge), st)"
  using assms by (auto simp: pipeline_def Let_def)

text \<open>
  Claim C6. For every upload whose file name has a suffix that, lower-cased, is not in
  \<open>ALLOWED_EXTENSIONS\<close>, or whose length in bytes exceeds \<open>MAX_FILE_MB\<close> megabytes, the
  pipeline ends with a validation rejection (the unsupported type, or else the size) and
  changes nothing: the handler leaves the database, the uploads and the outputs as they
  were. The page the handler returns carries that rejection and no result; the handler
  returns the page whenever the stored history can be aggregated for it, and raises the
  error of that aggregation otherwise.
\<close>

theorem process_image_rejects:
  assumes "upload_filename up = Some fname"
    and "str_lower (path_suffix fname) \<notin> ALLOWED_EXTENSIONS \<or>
         MAX_FILE_MB * 1024 * 1024 < int (length (contents up))"
  shows "pipeline e up st =
           (Rejected (if str_lower (path_suffix fname) \<notin> ALLOWED_EXTENSIONS then UnsupportedType
                      else TooLarge), st) \<and>
         db (snd (process_image e up st)) = db st \<and>
         uploads (snd (process_image e up st)) = uploads st \<and>
         outputs (snd (process_image e up st)) = outputs st \<and>
         (\<forall>c. fst (process_image e up st) = Page c \<longrightarrow>
            ctx_result c = None \<and>
            ctx_error c = Some (if str_lower (path_suffix fname) \<notin> ALLOWED_EXTENSIONS
                                then UnsupportedType else TooLarge)) \<and>
         (\<forall>x. fst (process_image e up st) = Raised x \<longrightarrow>
            get_counts_by_class (interp e) (db st) = Inl x) \<and>
         (list_all (readable_row (interp e)) (rows (db st)) \<longrightarrow>
            (\<exists>c. fst (process_image e up st) = Page c))"
proof -
  define msg where "msg = (if str_lower (path_suffix fname) \<notin> ALLOWED_EXTENSIONS
                           then UnsupportedType else TooLarge)"
  define b where "b = build_context e None (Some msg) False st"
  have q: "pipeline e up st = (Rejected msg, st)"
    unfolding msg_def using assms by (rule pipeline_rejected)
  have p: "process_image e up st = render b"
    by (simp add: process_image_def q respond_rejected b_def)
  have st: "db (snd (process_image e up st)) = db st \<and>
         uploads (snd (process_image e up st)) = uploads st \<and>
         outputs (snd (process_image e up st)) = outputs st"
    unfolding p render_snd b_def by (rule build_context_state)
  have page: "ctx_result c = None \<and> ctx_error c = Some msg"
    if "fst (process_image e up st) = Page c" for c
  proof -
    from that have "fst b = Inr c"
      by (simp add: p render_fst split: sum.splits)
    then show ?thesis
      using build_context_page [of e None "Some msg" False st c] by (simp add: b_def)
  qed
  have raised: "get_counts_by_class (interp e) (db st) = Inl x"
    if "fst (process_image e up st) = Raised x" for x
  proof -
    from that have "fst b = Inl x"
      by (simp add: p render_fst split: sum.splits)
    then show ?thesis unfolding b_def by (rule build_context_raises)
  qed
  have ok: "\<exists>c. fst (process_image e up st) = Page c"
    if "list_all (readable_row (interp e)) (rows (db st))"
  proof -
    from get_counts_by_class_result [OF that]
    obtain t where "get_counts_by_class (interp e) (db st) = Inr t" by blast
    from build_context_rejection [OF this, of None "Some msg"]
    show ?thesis by (auto simp: p render_fst b_def)
  qed
  from q st page raised ok show ?thesis unfolding msg_def by blast
qed

lemma scenario_readable: "list_all (readable_row sample_builtins) (rows scenario_store)"
proof -
  have "get_counts_by_class sample_builtins scenario_store = Inr [(''banana'', 1), (''apple'', 3)]"
    by code_simp
  then show ?thesis by (rule readable_of_result)
qed

theorem process_image_rejects_witness:
  "upload_filename gif_upload = Some ''holiday.GIF'' \<and>
   str_lower (path_suffix ''holiday.GIF'') = ''.gif'' \<and>
   ''.gif'' \<notin> ALLOWED_EXTENSIONS \<and>
   pipeline sample_env gif_upload sample_state = (Rejected UnsupportedType, sample_state) \<and>
   db (snd (process_image sample_env gif_upload sample_state)) = scenario_store \<and>
   (\<exists>c. fst (process_image sample_env gif_upload sample_state) = Page c \<and>
        ctx_error c = Some UnsupportedType \<and> ctx_result c = None) \<and>
   upload_filename big_upload = Some ''big.png'' \<and>
   str_lower (path_suffix ''big.png'') = ''.png'' \<and>
   MAX_FILE_MB * 1024 * 1024 < int (length (contents big_upload)) \<and>
   pipeline sample_env big_upload sample_state = (Rejected TooLarge, sample_state) \<and>
   db (snd (process_image sample_env big_upload sample_state)) = scenario_store \<and>
   (\<exists>c. fst (process_image sample_env big_upload sample_state) = Page c \<and>
        ctx_error c = Some TooLarge \<and> ctx_result c = None)"
proof -
  have g1: "upload_filename gif_upload = Some ''holiday.GIF''"
    by (simp add: gif_upload_def)
  have g2: "str_lower (path_suffix ''holiday.GIF'') = ''.gif''"
    by code_simp
  have g3: "''.gif'' \<notin> ALLOWED_EXTENSIONS"
    by (simp add: ALLOWED_EXTENSIONS_def)
  have b1: "upload_filename big_upload = Some ''big.png''"
    by (simp add: big_upload_def)
  have b2: "str_lower (path_suffix ''big.png'') = ''.png''"
    by code_simp
  have b3: "''.png'' \<in> ALLOWED_EXTENSIONS"
    by (simp add: ALLOWED_EXTENSIONS_def)
  have b4: "MAX_FILE_MB * 1024 * 1024 < int (length (contents big_upload))"
    by (simp add: big_upload_def MAX_FILE_MB_def)
  have rd: "list_all (readable_row (interp sample_env)) (rows (db sample_state))"
    using scenario_readable by (simp add: sample_env_def sample_state_def)
  have dbs: "db sample_state = scenario_store"
    by (simp add: sample_state_def)
  have gbad: "str_lower (path_suffix ''holiday.GIF'') \<notin> ALLOWED_EXTENSIONS \<or>
         MAX_FILE_MB * 1024 * 1024 < int (length (contents gif_upload))"
    using g2 g3 by simp
  have bbad: "str_lower (path_suffix ''big.png'') \<notin> ALLOWED_EXTENSIONS \<or>
         MAX_FILE_MB * 1024 * 1024 < int (length (contents big_upload))"
    using b4 by simp
  note g = process_image_rejects [OF g1 gbad, of sample_env sample_state]
  note b = process_image_rejects [OF b1 bbad, of sample_env sample_state]
  from g rd obtain c where c: "fst (process_image sample_env gif_upload sample_state) = Page c"
    by blast
  with g have c': "ctx_error c = Some UnsupportedType \<and> ctx_result c = None"
    using g2 g3 by simp
  from b rd obtain c2 where c2: "fst (process_image sample_env big_upload sample_state) = Page c2"
    by blast
  with b have c2': "ctx_error c2 = Some TooLarge \<and> ctx_result c2 = None"
    using b2 b3 by simp
  have "pipeline sample_env gif_upload sample_state = (Rejected UnsupportedType, sample_state)"
    using conjunct1 [OF g] g2 g3 by simp
  moreover have "db (snd (process_image sample_env gif_upload sample_state)) = scenario_store"
    using g dbs by simp
  moreover have "pipeline sample_env big_upload sample_state = (Rejected TooLarge, sample_state)"
    using conjunct1 [OF b] b2 b3 by simp
  moreover have "db (snd (process_image sample_env big_upload sample_state)) = scenario_store"
    using b dbs by simp
  ultimately show ?thesis
    using g1 g2 g3 b1 b2 b4 c c' c2 c2' by blast
qed

section \<open>What a successful run persists, and what a failed run leaves behind\<close>

lemma load_model_loaded:
  assumes "load_model y ms = (Inr m, ms1)"
  shows "loaded_model ms1 = Some m"
  using assms by (auto simp: load_model_def split: option.splits sum.splits)

lemma get_fruit_class_ids_loaded:
  assumes "loaded_model ms1 = Some m"
  shows "loaded_model (snd (get_fruit_class_ids y ms1)) = Some m"
  using assms
  by (auto simp: get_fruit_class_ids_def load_model_def Let_def split: option.splits)

lemma run_detection_success:
  assumes "run_detection y t p ms = (Inr d, ms')"
  shows "\<exists>m raw. loaded_model ms' = Some m \<and> detector_calls ms' \<noteq> [] \<and>
           infer m (last (detector_calls ms')) = Inr raw \<and>
           det_counts d = (case res_cls raw of None \<Rightarrow> []
                           | Some cls \<Rightarrow> count_classes (res_names raw) [] cls) \<and>
           det_total d = sum_list (dict_values (det_counts d))"
proof -
  obtain m ms1 where l: "load_model y ms = (Inr m, ms1)"
    using assms by (auto simp: run_detection_def split: prod.splits sum.splits)
  obtain ids ms2 where g: "get_fruit_class_ids y ms1 = (Inr ids, ms2)"
    using assms l by (auto simp: run_detection_def split: prod.splits sum.splits)
  have lm: "loaded_model ms2 = Some m"
    using get_fruit_class_ids_loaded [OF load_model_loaded [OF l], of y] g by simp
  show ?thesis
    using assms l g lm
    by (auto simp: run_detection_def Let_def split: sum.splits)
qed

lemma count_list_map_filter: "count_list (map f xs) k = length (filter (\<lambda>x. f x = k) xs)"
  by (induction xs) auto

lemma counts_of_raw:
  assumes "counts = (case res_cls raw of None \<Rightarrow> []
                     | Some cls \<Rightarrow> count_classes (res_names raw) [] cls)"
  shows "set (dict_keys counts) \<subseteq> FRUIT_CLASSES"
    and "distinct (dict_keys counts)"
    and "dict_get counts k 0 = (if k \<in> FRUIT_CLASSES then int (count_list (raw_names raw) k) else 0)"
    and "sum_list (dict_values counts) = int (length (filter (\<lambda>n. n \<in> FRUIT_CLASSES) (raw_names raw)))"
proof -
  show "set (dict_keys counts) \<subseteq> FRUIT_CLASSES"
    using count_classes_keys [of "res_names raw" "[]"]
    by (auto simp: assms dict_keys_def split: option.splits)
  show "distinct (dict_keys counts)"
    using count_classes_distinct [of "[]" "res_names raw"]
    by (auto simp: assms dict_keys_def split: option.splits)
  show "dict_get counts k 0 = (if k \<in> FRUIT_CLASSES then int (count_list (raw_names raw) k) else 0)"
    by (simp add: assms raw_names_def count_classes_get dict_get_empty count_list_map_filter
        split: option.splits)
  show "sum_list (dict_values counts) = int (length (filter (\<lambda>n. n \<in> FRUIT_CLASSES) (raw_names raw)))"
    by (simp add: assms raw_names_def count_classes_sum dict_values_empty filter_map comp_def
        split: option.splits)
qed

lemma pipeline_completed:
  assumes "pipeline e up st = (Completed res, st')"
  shows "\<exists>fname d.
           upload_filename up = Some fname \<and>
           run_detection (yolo e) (clock_ms e) (file_id e @ str_lower (path_suffix fname)) (mstate st) =
             (Inr d, mstate st') \<and>
           insert_request fname (file_id e @ ''_result.jpg'') (det_counts d) (det_total d) MODEL_NAME
             (now e) (det_ms d) (db st) = (request_id res, db st') \<and>
           res_counts res = det_counts d \<and> res_total res = det_total d"
  using assms
  by (auto simp: pipeline_def Let_def split: option.splits if_splits prod.splits sum.splits)

lemma process_image_db: "db (snd (process_image e up st)) = db (snd (pipeline e up st))"
  by (cases "pipeline e up st")
     (auto simp: process_image_def respond_def render_snd build_context_state split: outcome.splits)


text \<open>
  Claim C2. For every image the pipeline processes successfully, exactly one record is
  persisted, the first that \<open>fetch_all\<close> then returns. Its \<open>counts_json\<close> decodes to the
  counts of the detection, its \<open>total_count\<close> is the sum of the values of these counts,
  and the counts have no key outside \<open>FRUIT_CLASSES\<close>. The counts are those of the raw
  detections of the detector's answer: a class of the allow-list is counted as often as
  it was detected, every other raw detection is left out, and \<open>total_count\<close> is the number
  of allow-listed raw detections.
\<close>

theorem pipeline_persists_counts:
  assumes "pipeline e up st = (Completed res, st')"
  shows "\<exists>r counts m raw.
           rows (db st') = rows (db st) @ [r] \<and>
           fetch_all (db st') = r # fetch_all (db st) \<and>
           db (snd (process_image e up st)) = db st' \<and>
           row_id r = request_id res \<and>
           counts_json r = json_dumps counts \<and>
           row_counts r = counts_value counts \<and>
           total_count r = sum_list (dict_values counts) \<and>
           set (dict_keys counts) \<subseteq> FRUIT_CLASSES \<and>
           loaded_model (mstate st') = Some m \<and>
           infer m (last (detector_calls (mstate st'))) = Inr raw \<and>
           (\<forall>k. dict_get counts k 0 =
                  (if k \<in> FRUIT_CLASSES then int (count_list (raw_names raw) k) else 0)) \<and>
           total_count r = int (length (filter (\<lambda>n. n \<in> FRUIT_CLASSES) (raw_names raw)))"
proof -
  from pipeline_completed [OF assms] obtain fname d where
    run: "run_detection (yolo e) (clock_ms e) (file_id e @ str_lower (path_suffix fname)) (mstate st) =
             (Inr d, mstate st')"
    and ins: "insert_request fname (file_id e @ ''_result.jpg'') (det_counts d) (det_total d) MODEL_NAME
             (now e) (det_ms d) (db st) = (request_id res, db st')"
    by blast
  from run_detection_success [OF run] obtain m raw where
    m: "loaded_model (mstate st') = Some m"
    and raw: "infer m (last (detector_calls (mstate st'))) = Inr raw"
    and cnt: "det_counts d = (case res_cls raw of None \<Rightarrow> []
                           | Some cls \<Rightarrow> count_classes (res_names raw) [] cls)"
    and tot: "det_total d = sum_list (dict_values (det_counts d))"
    by blast
  let ?r = "\<lparr>row_id = request_id res, filename = fname, output_path = file_id e @ ''_result.jpg'',
             counts_json = json_dumps (det_counts d), total_count = det_total d,
             model_name = MODEL_NAME, created_at = now e, processing_ms = det_ms d\<rparr>"
  note c = counts_of_raw [OF cnt]
  have 1: "rows (db st') = rows (db st) @ [?r]"
    using insert_request_rows(2) [OF ins] .
  have 2: "fetch_all (db st') = ?r # fetch_all (db st)"
    using ins by (rule insert_request_fetch_all)
  have 3: "db (snd (process_image e up st)) = db st'"
    by (simp add: process_image_db assms)
  have 4: "row_counts ?r = counts_value (det_counts d)"
    using written_row(1) [OF c(2), of ?r] by simp
  have 5: "total_count ?r = sum_list (dict_values (det_counts d))"
    using tot by simp
  have 6: "total_count ?r = int (length (filter (\<lambda>n. n \<in> FRUIT_CLASSES) (raw_names raw)))"
    using tot c(4) by simp
  have 7: "\<forall>k. dict_get (det_counts d) k 0 =
                  (if k \<in> FRUIT_CLASSES then int (count_list (raw_names raw) k) else 0)"
    using c(3) by blast
  have "rows (db st') = rows (db st) @ [?r] \<and>
           fetch_all (db st') = ?r # fetch_all (db st) \<and>
           db (snd (process_image e up st)) = db st' \<and>
           row_id ?r = request_id res \<and>
           counts_json ?r = json_dumps (det_counts d) \<and>
           row_counts ?r = counts_value (det_counts d) \<and>
           total_count ?r = sum_list (dict_values (det_counts d)) \<and>
           set (dict_keys (det_counts d)) \<subseteq> FRUIT_CLASSES \<and>
           loaded_model (mstate st') = Some m \<and>
           infer m (last (detector_calls (mstate st'))) = Inr raw \<and>
           (\<forall>k. dict_get (det_counts d) k 0 =
                  (if k \<in> FRUIT_CLASSES then int (count_list (raw_names raw) k) else 0)) \<and>
           total_count ?r = int (length (filter (\<lambda>n. n \<in> FRUIT_CLASSES) (raw_names raw)))"
    using 1 2 3 4 5 6 7 c(1) m raw by simp
  then show ?thesis by blast
qed


lemma bare_run:
  "fst (pipeline bare_env good_upload sample_state) =
     Completed \<lparr>request_id = 4, original_name = ''Market.JPG'',
                 output_url = ''/outputs/0f3a_result.jpg'',
                 res_counts = [(''banana'', 2)], res_total = 2, res_processing_ms = 40,
                 res_created_at = ''2024-05-01 10:01:00''\<rparr> \<and>
   map total_count (fetch_all (db (snd (pipeline bare_env good_upload sample_state)))) = [2, 0, 2, 2] \<and>
   row_counts (hd (fetch_all (db (snd (pipeline bare_env good_upload sample_state))))) =
     JObj [(''banana'', JInt 2)] \<and>
   map classes (detector_calls (mstate (snd (pipeline bare_env good_upload sample_state)))) = [None]"
  by code_simp

theorem pipeline_persists_counts_witness:
  "fst (pipeline bare_env good_upload sample_state) =
     Completed \<lparr>request_id = 4, original_name = ''Market.JPG'',
                 output_url = ''/outputs/0f3a_result.jpg'',
                 res_counts = [(''banana'', 2)], res_total = 2, res_processing_ms = 40,
                 res_created_at = ''2024-05-01 10:01:00''\<rparr> \<and>
   map total_count (fetch_all (db (snd (pipeline bare_env good_upload sample_state)))) = [2, 0, 2, 2] \<and>
   row_counts (hd (fetch_all (db (snd (pipeline bare_env good_upload sample_state))))) =
     JObj [(''banana'', JInt 2)] \<and>
   (\<exists>r counts.
      fetch_all (db (snd (process_image bare_env good_upload sample_state))) =
        r # fetch_all (db sample_state) \<and>
      row_id r = 4 \<and>
      row_counts r = counts_value counts \<and>
      total_count r = sum_list (dict_values counts) \<and>
      set (dict_keys counts) \<subseteq> FRUIT_CLASSES)"
proof -
  let ?res = "\<lparr>request_id = 4, original_name = ''Market.JPG'',
                 output_url = ''/outputs/0f3a_result.jpg'',
                 res_counts = [(''banana'', 2)], res_total = 2, res_processing_ms = 40,
                 res_created_at = ''2024-05-01 10:01:00''\<rparr>"
  let ?p = "pipeline bare_env good_upload sample_state"
  have p: "?p = (Completed ?res, snd ?p)"
    using conjunct1 [OF bare_run] by (metis prod.collapse)
  from pipeline_persists_counts [OF p] obtain r counts where
    "fetch_all (db (snd ?p)) = r # fetch_all (db sample_state)"
    "db (snd (process_image bare_env good_upload sample_state)) = db (snd ?p)"
    "row_id r = request_id ?res"
    "row_counts r = counts_value counts"
    "total_count r = sum_list (dict_values counts)"
    "set (dict_keys counts) \<subseteq> FRUIT_CLASSES"
    by blast
  then have "\<exists>r counts.
      fetch_all (db (snd (process_image bare_env good_upload sample_state))) =
        r # fetch_all (db sample_state) \<and>
      row_id r = 4 \<and>
      row_counts r = counts_value counts \<and>
      total_count r = sum_list (dict_values counts) \<and>
      set (dict_keys counts) \<subseteq> FRUIT_CLASSES"
    by auto
  then show ?thesis
    using bare_run by blast
qed

lemma pipeline_rejected_clean:
  assumes "fst (pipeline e up st) = Rejected msg"
  shows "db (snd (pipeline e up st)) = db st"
    and "uploads (snd (pipeline e up st)) p \<noteq> None \<Longrightarrow> uploads st p \<noteq> None"
  using assms
  by (auto simp: pipeline_def Let_def split: option.splits if_splits prod.splits sum.splits)

lemma pipeline_failed_staged:
  assumes "fst (pipeline e up st) = Failed x"
  shows "\<exists>fname. upload_filename up = Some fname \<and>
           uploads (snd (pipeline e up st)) (file_id e @ str_lower (path_suffix fname)) =
             Some (contents up) \<and>
           db (snd (pipeline e up st)) = db st"
  using assms
  by (auto simp: pipeline_def Let_def split: option.splits if_splits prod.splits sum.splits)

text \<open>
  Claim C3, evaluated where it fails. A valid image is uploaded and the detector raises
  during inference: the handler ends with that exception, no record is persisted, and the
  staged upload \<^verbatim>\<open>0f3a.jpg\<close> is still in the upload directory. On the sibling path, an
  upload that the image library does not accept, the staged file is removed.
\<close>

theorem pipeline_detection_failure_leaves_upload:
  "fst (pipeline failing_env good_upload sample_state) = Failed RuntimeError \<and>
   fst (process_image failing_env good_upload sample_state) = Raised RuntimeError \<and>
   uploads (snd (process_image failing_env good_upload sample_state)) ''0f3a.jpg'' =
     Some (contents good_upload) \<and>
   db (snd (process_image failing_env good_upload sample_state)) = scenario_store \<and>
   fst (pipeline sample_env text_upload sample_state) = Rejected NotAnImage \<and>
   uploads (snd (process_image sample_env text_upload sample_state)) ''0f3a.png'' = None \<and>
   db (snd (process_image sample_env text_upload sample_state)) = scenario_store"
  by code_simp

text \<open>The pipeline keeps the history readable: what it inserts can be aggregated, so that a
  database that only the handler has written never makes \<open>get_counts_by_class\<close> fail.\<close>

lemma pipeline_db_cases:
  "(\<exists>res. fst (pipeline e up st) = Completed res) \<or> db (snd (pipeline e up st)) = db st"
  by (auto simp: pipeline_def Let_def split: option.splits if_splits prod.splits sum.splits)

lemma pipeline_persists_rows:
  assumes "pipeline e up st = (Completed res, st')"
  shows "\<exists>r counts. rows (db st') = rows (db st) @ [r] \<and>
           counts_json r = json_dumps counts \<and> distinct (dict_keys counts)"
proof -
  from pipeline_completed [OF assms] obtain fname d where
    run: "run_detection (yolo e) (clock_ms e) (file_id e @ str_lower (path_suffix fname)) (mstate st) =
             (Inr d, mstate st')"
    and ins: "insert_request fname (file_id e @ ''_result.jpg'') (det_counts d) (det_total d) MODEL_NAME
             (now e) (det_ms d) (db st) = (request_id res, db st')"
    by blast
  from run_detection_success [OF run] obtain raw :: det_result where
    cnt: "det_counts d = (case res_cls raw of None \<Rightarrow> []
                           | Some cls \<Rightarrow> count_classes (res_names raw) [] cls)"
    by blast
  from insert_request_rows(2) [OF ins] counts_of_raw(2) [OF cnt]
  show ?thesis by auto
qed

lemma process_image_keeps_readable:
  assumes "list_all (readable_row bi) (rows (db st))"
  shows "list_all (readable_row bi) (rows (db (snd (process_image e up st))))"
proof -
  from pipeline_db_cases [of e up st]
  show ?thesis
  proof
    assume "\<exists>res. fst (pipeline e up st) = Completed res"
    then obtain res where "pipeline e up st = (Completed res, snd (pipeline e up st))"
      by (metis prod.collapse)
    from pipeline_persists_rows [OF this] obtain r counts where
      r: "rows (db (snd (pipeline e up st))) = rows (db st) @ [r]"
      and c: "counts_json r = json_dumps counts" "distinct (dict_keys counts)"
      by blast
    have "readable_row bi r"
      using written_row(2) [OF c(2) c(1)] .
    with assms r show ?thesis
      by (simp add: process_image_db)
  next
    assume "db (snd (pipeline e up st)) = db st"
    with assms show ?thesis
      by (simp add: process_image_db)
  qed
qed

end
